theory Spec2Isabelle
  imports Main "HOL-Library.Mapping"
begin

text \<open>
  A model of the coordination kernel of mrmd-monitor, a headless peer that runs the code
  cells of a shared notebook and streams their output into the document: the terminal
  buffer that turns output with cursor movements into plain text, the document writer
  that finds and rewrites the output block of an execution, the coordination protocol on
  the shared map of execution records, and the registry of running executions of the
  execution handler. Each JavaScript function is a function of the same name on the
  state it reads and writes; the definitions come first, the properties after them.
\<close>

section \<open>JavaScript strings and arrays\<close>

text \<open>
  A JavaScript string is a sequence of UTF-16 code units. A code unit is modelled by its
  number (what \<^verbatim>\<open>charCodeAt\<close> returns), a string by the list of its code units, so that
  \<^verbatim>\<open>text.length\<close> is \<open>length text\<close> and \<^verbatim>\<open>text[i]\<close> is the \<open>i\<close>-th element, or
  \<^verbatim>\<open>undefined\<close> (here \<open>None\<close>) past the end. \<open>js\<close> turns an ASCII literal into such a string.
\<close>

type_synonym jsstring = "nat list"

definition js :: "string \<Rightarrow> jsstring" where
  "js s = map of_char s"

abbreviation cu :: "char \<Rightarrow> nat" where
  "cu c \<equiv> of_char c"

abbreviation ESC :: nat where "ESC \<equiv> 0x1B"
abbreviation CR :: nat where "CR \<equiv> 0x0D"
abbreviation LF :: nat where "LF \<equiv> 0x0A"
abbreviation BS :: nat where "BS \<equiv> 0x08"
abbreviation TAB :: nat where "TAB \<equiv> 0x09"
abbreviation SPACE :: nat where "SPACE \<equiv> 0x20"

text \<open>\<^verbatim>\<open>text[j]\<close>: the code unit at index \<open>j\<close>, \<^verbatim>\<open>undefined\<close> past the end.\<close>

definition char_at :: "jsstring \<Rightarrow> nat \<Rightarrow> nat option" where
  "char_at text j = (if j < length text then Some (text ! j) else None)"

text \<open>
  A JavaScript array may have holes: \<^verbatim>\<open>a[i] = v\<close> with \<open>i\<close> past the end extends the
  array and leaves the slots in between empty, and reading a hole or past the end gives
  \<^verbatim>\<open>undefined\<close>. An array of lines is therefore a list of optional values, \<open>None\<close> a hole.
\<close>

definition array_get :: "'a option list \<Rightarrow> nat \<Rightarrow> 'a option" where
  "array_get xs i = (if i < length xs then xs ! i else None)"

definition array_set :: "'a option list \<Rightarrow> nat \<Rightarrow> 'a \<Rightarrow> 'a option list" where
  "array_set xs i v =
     (if i < length xs then xs[i := Some v]
      else xs @ replicate (i - length xs) None @ [Some v])"

text \<open>
  \<^verbatim>\<open>String.prototype.trimEnd\<close> removes the trailing white space and line terminators
  of ECMAScript.
\<close>

definition isWhiteSpace :: "nat \<Rightarrow> bool" where
  "isWhiteSpace c \<longleftrightarrow>
     (9 \<le> c \<and> c \<le> 13) \<or> c = 0x20 \<or> c = 0xA0 \<or> c = 0x1680 \<or> (0x2000 \<le> c \<and> c \<le> 0x200A) \<or>
     c = 0x2028 \<or> c = 0x2029 \<or> c = 0x202F \<or> c = 0x205F \<or> c = 0x3000 \<or> c = 0xFEFF"

definition trimEnd :: "jsstring \<Rightarrow> jsstring" where
  "trimEnd l = rev (dropWhile isWhiteSpace (rev l))"

text \<open>\<^verbatim>\<open>parts.join(sep)\<close> on an array of strings.\<close>

fun join :: "jsstring \<Rightarrow> jsstring list \<Rightarrow> jsstring" where
  "join sep [] = []"
| "join sep [x] = x"
| "join sep (x # y # ys) = x @ sep @ join sep (y # ys)"

text \<open>\<^verbatim>\<open>s.split(sep)\<close> for a separator of one code unit; \<^verbatim>\<open>''.split(sep)\<close> is \<^verbatim>\<open>['']\<close>.\<close>

fun split :: "nat \<Rightarrow> jsstring \<Rightarrow> jsstring list" where
  "split sep [] = [[]]"
| "split sep (c # cs) =
     (if c = sep then [] # split sep cs
      else (case split sep cs of r # rs \<Rightarrow> (c # r) # rs | [] \<Rightarrow> [[c]]))"

text \<open>
  \<^verbatim>\<open>parseInt(n) || 0\<close> on a string of decimal digits: its value, and 0 for the empty string
  (where \<^verbatim>\<open>parseInt\<close> gives NaN). Numbers are modelled as naturals, exact where the double
  of the source is (below \<open>2^53\<close>).
\<close>

definition parseIntOr0 :: "jsstring \<Rightarrow> nat" where
  "parseIntOr0 ds = foldl (\<lambda>a d. 10 * a + (d - 48)) 0 ds"


section \<open>Terminal buffer (src/terminal.js)\<close>

text \<open>
  The state of a \<^verbatim>\<open>TerminalBuffer\<close>: the array of lines (each an array of one-character
  strings, here a string), the cursor and the saved cursor. Row and column never go
  below 0: every decrement of the source is \<^verbatim>\<open>Math.max(0, a - b)\<close>, which is the
  subtraction \<open>a - b\<close> of natural numbers. The methods mutate the object; here each
  takes the state and returns the new one. The one exception the class raises is the
  TypeError of using a hole of the array of lines as a line. The limits of the platform
  (the precision of numbers above \<open>2^53\<close>, the length of arrays, memory) are not modelled.
\<close>

datatype error = TypeError

record TerminalBuffer =
  lines :: "jsstring option list"
  row :: nat
  col :: nat
  savedCursor :: "(nat \<times> nat) option"

text \<open>The constructor: one empty line, cursor at the origin, no saved cursor.\<close>

definition new_TerminalBuffer :: TerminalBuffer where
  "new_TerminalBuffer = \<lparr>lines = [Some []], row = 0, col = 0, savedCursor = None\<rparr>"

text \<open>\<^verbatim>\<open>_ensureRow\<close>: push empty lines while \<^verbatim>\<open>_lines.length <= row\<close>.\<close>

definition ensureRow :: "nat \<Rightarrow> TerminalBuffer \<Rightarrow> TerminalBuffer" where
  "ensureRow r s = s\<lparr>lines := lines s @ replicate (Suc r - length (lines s)) (Some [])\<rparr>"

text \<open>
  \<^verbatim>\<open>_writeChar\<close>: after \<^verbatim>\<open>_ensureRow\<close> the row is inside the array, but it may be a hole
  (left by \<^verbatim>\<open>_clearLine\<close>); then \<^verbatim>\<open>line.length\<close> raises a TypeError. Otherwise the line is
  padded with spaces while \<^verbatim>\<open>line.length <= _col\<close>, the character stored and the column
  advanced.
\<close>

definition writeChar :: "nat \<Rightarrow> TerminalBuffer \<Rightarrow> error + TerminalBuffer" where
  "writeChar ch s =
     (let s1 = ensureRow (row s) s in
      case array_get (lines s1) (row s1) of
        None \<Rightarrow> Inl TypeError
      | Some line \<Rightarrow>
          (let line1 = line @ replicate (Suc (col s1) - length line) SPACE
           in Inr (s1\<lparr>lines := (lines s1)[row s1 := Some (line1[col s1 := ch])],
                      col := col s1 + 1\<rparr>)))"

definition clearToEndOfLine :: "TerminalBuffer \<Rightarrow> TerminalBuffer" where
  "clearToEndOfLine s =
     (case array_get (lines s) (row s) of
        None \<Rightarrow> s
      | Some line \<Rightarrow> s\<lparr>lines := array_set (lines s) (row s) (take (col s) line)\<rparr>)"

text \<open>
  \<^verbatim>\<open>_clearFromStartOfLine\<close>: the loop stores a space at every index \<open>i\<close> with
  \<open>i \<le> col\<close> and \<open>i < length line\<close>, in place.
\<close>

definition clearFromStartOfLine :: "TerminalBuffer \<Rightarrow> TerminalBuffer" where
  "clearFromStartOfLine s =
     (case array_get (lines s) (row s) of
        None \<Rightarrow> s
      | Some line \<Rightarrow>
          s\<lparr>lines := (lines s)[row s :=
               Some (replicate (min (Suc (col s)) (length line)) SPACE @ drop (Suc (col s)) line)]\<rparr>)"

definition clearLine :: "TerminalBuffer \<Rightarrow> TerminalBuffer" where
  "clearLine s = s\<lparr>lines := array_set (lines s) (row s) []\<rparr>"

text \<open>
  \<^verbatim>\<open>_clearToEndOfScreen\<close>: after the rest of the line, every row \<open>r\<close> with
  \<open>row < r < length lines\<close> is replaced by an empty line.
\<close>

definition clearToEndOfScreen :: "TerminalBuffer \<Rightarrow> TerminalBuffer" where
  "clearToEndOfScreen s =
     (let s1 = clearToEndOfLine s
      in s1\<lparr>lines := take (Suc (row s1)) (lines s1) @
                        replicate (length (lines s1) - Suc (row s1)) (Some [])\<rparr>)"

text \<open>
  \<^verbatim>\<open>_clearFromStartOfScreen\<close>: every row \<open>r < row\<close> is assigned an empty line, in
  increasing order, which extends the array without holes when \<open>row\<close> is past its end.
\<close>

definition clearFromStartOfScreen :: "TerminalBuffer \<Rightarrow> TerminalBuffer" where
  "clearFromStartOfScreen s =
     clearFromStartOfLine (s\<lparr>lines := replicate (row s) (Some []) @ drop (row s) (lines s)\<rparr>)"

definition clearScreen :: "TerminalBuffer \<Rightarrow> TerminalBuffer" where
  "clearScreen s = s\<lparr>lines := [Some []], row := 0, col := 0\<rparr>"

text \<open>The parameter bytes of a control sequence, \<^verbatim>\<open>/[0-9;]/\<close>.\<close>

definition isParamByte :: "nat \<Rightarrow> bool" where
  "isParamByte c \<longleftrightarrow> (cu CHR ''0'' \<le> c \<and> c \<le> cu CHR ''9'') \<or> c = cu CHR '';''"

text \<open>\<^verbatim>\<open>nums[k] || 1\<close>: the \<open>k\<close>-th parameter, 1 when it is missing or 0.\<close>

definition param_or1 :: "nat list \<Rightarrow> nat \<Rightarrow> nat" where
  "param_or1 nums k = (if k < length nums \<and> nums ! k \<noteq> 0 then nums ! k else 1)"

text \<open>
  \<^verbatim>\<open>_parseEscapeSequence(text, i)\<close>, called with \<^verbatim>\<open>ESC [\<close> at index \<open>i\<close>: returns the
  buffer after the command and the next index. The command byte \<^verbatim>\<open>text[j] || ''\<close> is a
  string of at most one code unit.
\<close>

definition parseEscapeSequence ::
    "jsstring \<Rightarrow> nat \<Rightarrow> TerminalBuffer \<Rightarrow> TerminalBuffer \<times> nat" where
  "parseEscapeSequence text i s =
     (let j = i + 2;
          isPrivateMode = (char_at text j = Some (cu CHR ''?''));
          j = (if isPrivateMode then j + 1 else j);
          params = takeWhile isParamByte (drop j text);
          j = j + length params;
          cmd = (case char_at text j of Some c \<Rightarrow> [c] | None \<Rightarrow> []);
          j = j + 1
      in if isPrivateMode \<or> cmd = js ''m'' then (s, j)
         else
           (let nums = (if params \<noteq> [] then map parseIntOr0 (split (cu CHR '';'') params) else []);
                n = param_or1 nums 0
            in
             (if cmd = js ''A'' then s\<lparr>row := row s - n\<rparr>
              else if cmd = js ''B'' then ensureRow (row s + n) (s\<lparr>row := row s + n\<rparr>)
              else if cmd = js ''C'' then s\<lparr>col := col s + n\<rparr>
              else if cmd = js ''D'' then s\<lparr>col := col s - n\<rparr>
              else if cmd = js ''E'' then ensureRow (row s + n) (s\<lparr>row := row s + n, col := 0\<rparr>)
              else if cmd = js ''F'' then s\<lparr>row := row s - n, col := 0\<rparr>
              else if cmd = js ''G'' then s\<lparr>col := n - 1\<rparr>
              else if cmd = js ''H'' \<or> cmd = js ''f'' then
                ensureRow (param_or1 nums 0 - 1)
                  (s\<lparr>row := param_or1 nums 0 - 1, col := param_or1 nums 1 - 1\<rparr>)
              else if cmd = js ''J'' then
                (if n = 0 \<or> params = [] then clearToEndOfScreen s
                 else if n = 1 then clearFromStartOfScreen s
                 else if n = 2 \<or> n = 3 then clearScreen s
                 else s)
              else if cmd = js ''K'' then
                (if n = 0 \<or> params = [] then clearToEndOfLine s
                 else if n = 1 then clearFromStartOfLine s
                 else if n = 2 then clearLine s
                 else s)
              else if cmd = js ''s'' then s\<lparr>savedCursor := Some (row s, col s)\<rparr>
              else if cmd = js ''u'' then
                (case savedCursor s of
                   Some (r, c) \<Rightarrow> s\<lparr>row := r, col := c\<rparr>
                 | None \<Rightarrow> s)
              else s,
              j)))"

lemma parseEscapeSequence_advances: "i < snd (parseEscapeSequence text i s)"
  by (simp add: parseEscapeSequence_def Let_def)

text \<open>The body of the loop of \<^verbatim>\<open>write\<close> for a character that does not start a sequence.\<close>

definition writeOne :: "nat \<Rightarrow> TerminalBuffer \<Rightarrow> error + TerminalBuffer" where
  "writeOne ch s =
     (if ch = CR then Inr (s\<lparr>col := 0\<rparr>)
      else if ch = LF then Inr (ensureRow (row s + 1) (s\<lparr>row := row s + 1, col := 0\<rparr>))
      else if ch = BS then Inr (s\<lparr>col := col s - 1\<rparr>)
      else if ch = TAB then Inr (s\<lparr>col := (col s div 8) * 8 + 8\<rparr>)
      else if 32 \<le> ch then writeChar ch s
      else Inr s)"

text \<open>
  The loop of \<^verbatim>\<open>write\<close>, from index \<open>i\<close>: a control sequence is parsed and the loop
  goes on at the index returned, any other character is handled and the loop goes on at
  the next index. An exception leaves the loop.
\<close>

function write_loop :: "jsstring \<Rightarrow> nat \<Rightarrow> TerminalBuffer \<Rightarrow> error + TerminalBuffer" where
  "write_loop text i s =
     (if i < length text then
        (if text ! i = ESC \<and> char_at text (i + 1) = Some (cu CHR ''['') then
           (case parseEscapeSequence text i s of (s1, j) \<Rightarrow> write_loop text j s1)
         else
           (case writeOne (text ! i) s of
              Inl e \<Rightarrow> Inl e
            | Inr s1 \<Rightarrow> write_loop text (i + 1) s1))
      else Inr s)"
  by pat_completeness auto
termination
proof (relation "measure (\<lambda>(text, i, s). length text - i)")
  show "wf (measure (\<lambda>(text, i, s). length text - i))" by simp
next
  fix t :: jsstring and i :: nat and s s1 :: TerminalBuffer and j :: nat
  assume "i < length t" and "(s1, j) = parseEscapeSequence t i s"
  moreover from this have "i < j"
    using parseEscapeSequence_advances [of i t s] by (metis snd_conv)
  ultimately show "((t, j, s1), (t, i, s)) \<in> measure (\<lambda>(text, i, s). length text - i)"
    by simp
next
  fix t :: jsstring and i :: nat and s s1 :: TerminalBuffer
  assume "i < length t"
  then show "((t, i + 1, s1), (t, i, s)) \<in> measure (\<lambda>(text, i, s). length text - i)"
    by simp
qed

declare write_loop.simps [simp del]

definition "write" :: "TerminalBuffer \<Rightarrow> jsstring \<Rightarrow> error + TerminalBuffer" where
  "write s text = write_loop text 0 s"

text \<open>
  \<^verbatim>\<open>toString\<close>: every line joined and trimmed (a hole raises a TypeError at
  \<^verbatim>\<open>line.join\<close>), trailing empty lines popped, the rest joined by newlines.
\<close>

fun joinLines :: "jsstring option list \<Rightarrow> error + jsstring list" where
  "joinLines [] = Inr []"
| "joinLines (None # ls) = Inl TypeError"
| "joinLines (Some l # ls) =
     (case joinLines ls of Inl e \<Rightarrow> Inl e | Inr out \<Rightarrow> Inr (trimEnd l # out))"

definition popEmpty :: "jsstring list \<Rightarrow> jsstring list" where
  "popEmpty out = rev (dropWhile (\<lambda>l. l = []) (rev out))"

definition toString :: "TerminalBuffer \<Rightarrow> error + jsstring" where
  "toString s =
     (case joinLines (lines s) of
        Inl e \<Rightarrow> Inl e
      | Inr out \<Rightarrow> Inr (join [LF] (popEmpty out)))"

text \<open>\<^verbatim>\<open>processTerminalOutput\<close>: a fresh buffer, one \<^verbatim>\<open>write\<close>, then \<^verbatim>\<open>toString\<close>.\<close>

definition processTerminalOutput :: "jsstring \<Rightarrow> error + jsstring" where
  "processTerminalOutput text =
     (case write new_TerminalBuffer text of Inl e \<Rightarrow> Inl e | Inr s \<Rightarrow> toString s)"

text \<open>
  A sequence of \<^verbatim>\<open>write(chunk)\<close> calls on one buffer, and the snapshot taken after them.
  An exception of one call ends the sequence.
\<close>

fun write_all :: "TerminalBuffer \<Rightarrow> jsstring list \<Rightarrow> error + TerminalBuffer" where
  "write_all s [] = Inr s"
| "write_all s (c # cs) = (case write s c of Inl e \<Rightarrow> Inl e | Inr s1 \<Rightarrow> write_all s1 cs)"

definition snapshot_of_chunks :: "jsstring list \<Rightarrow> error + jsstring" where
  "snapshot_of_chunks chunks =
     (case write_all new_TerminalBuffer chunks of Inl e \<Rightarrow> Inl e | Inr s \<Rightarrow> toString s)"

text \<open>
  The index of the command byte of the control sequence that starts at \<open>i\<close>, as
  \<^verbatim>\<open>_parseEscapeSequence\<close> computes it: after \<^verbatim>\<open>ESC [\<close>, an optional \<^verbatim>\<open>?\<close> and the
  parameter bytes.
\<close>

definition csi_cmd_index :: "jsstring \<Rightarrow> nat \<Rightarrow> nat" where
  "csi_cmd_index text i =
     (let j = i + 2;
          j = (if char_at text j = Some (cu CHR ''?'') then j + 1 else j)
      in j + length (takeWhile isParamByte (drop j text)))"

lemma csi_cmd_index_advances: "i < csi_cmd_index text i"
  by (simp add: csi_cmd_index_def Let_def)

text \<open>
  A chunk is self-contained when the loop of \<^verbatim>\<open>write\<close>, run on the chunk alone, never
  reads past its end: no \<^verbatim>\<open>ESC\<close> is its last code unit and every control sequence that
  starts in it has its command byte in it.
\<close>

function self_contained_from :: "jsstring \<Rightarrow> nat \<Rightarrow> bool" where
  "self_contained_from text i =
     (if i < length text then
        (if text ! i = ESC then
           (if char_at text (i + 1) = Some (cu CHR ''['') then
              csi_cmd_index text i < length text \<and>
              self_contained_from text (csi_cmd_index text i + 1)
            else i + 1 < length text \<and> self_contained_from text (i + 1))
         else self_contained_from text (i + 1))
      else True)"
  by pat_completeness auto
termination
proof (relation "measure (\<lambda>(text, i). length text - i)")
  show "wf (measure (\<lambda>(text, i). length text - i))" by simp
next
  fix t :: jsstring and i :: nat
  assume "i < length t"
  then show "((t, csi_cmd_index t i + 1), (t, i)) \<in> measure (\<lambda>(text, i). length text - i)"
    using csi_cmd_index_advances [of i t] by simp
next
  fix t :: jsstring and i :: nat
  assume "i < length t"
  then show "((t, i + 1), (t, i)) \<in> measure (\<lambda>(text, i). length text - i)"
    by simp
next
  fix t :: jsstring and i :: nat
  assume "i < length t"
  then show "((t, i + 1), (t, i)) \<in> measure (\<lambda>(text, i). length text - i)"
    by simp
qed

declare self_contained_from.simps [simp del]

definition self_contained :: "jsstring \<Rightarrow> bool" where
  "self_contained chunk = self_contained_from chunk 0"


section \<open>Document writer (src/document.js)\<close>

text \<open>
  \<^verbatim>\<open>text.indexOf(pat, start)\<close>: the least index at or after \<open>start\<close> where \<open>pat\<close> occurs,
  \<open>None\<close> for \<^verbatim>\<open>-1\<close>. \<open>index_from pat xs k\<close> searches the rest \<open>xs\<close> of the text, which
  starts at index \<open>k\<close>.
\<close>

fun index_from :: "jsstring \<Rightarrow> jsstring \<Rightarrow> nat \<Rightarrow> nat option" where
  "index_from pat [] k = (if pat = [] then Some k else None)"
| "index_from pat (x # xs) k =
     (if take (length pat) (x # xs) = pat then Some k else index_from pat xs (Suc k))"

definition indexOf :: "jsstring \<Rightarrow> jsstring \<Rightarrow> nat \<Rightarrow> nat option" where
  "indexOf text pat start = index_from pat (drop start text) (min start (length text))"

lemma index_from_ge: "index_from pat xs k = Some p \<Longrightarrow> k \<le> p"
  by (induction xs arbitrary: k) (auto split: if_splits dest: Suc_leD)

lemma indexOf_ge: "indexOf text pat start = Some p \<Longrightarrow> start < length text \<Longrightarrow> start \<le> p"
  using index_from_ge [of pat "drop start text" "min start (length text)" p]
  by (simp add: indexOf_def)

text \<open>
  The loop of \<^verbatim>\<open>findOutputBlock\<close> that looks for the closing fence: the first
  \<^verbatim>\<open>```\<close> at or after \<open>searchPos\<close> that is at index 0 or preceded by a newline;
  \<open>None\<close> is \<^verbatim>\<open>closingPos === -1\<close>.
\<close>

function closingSearch :: "jsstring \<Rightarrow> nat \<Rightarrow> nat option" where
  "closingSearch text searchPos =
     (if searchPos < length text then
        (case indexOf text (js ''```'') searchPos of
           None \<Rightarrow> None
         | Some nextBackticks \<Rightarrow>
             if nextBackticks = 0 \<or> char_at text (nextBackticks - 1) = Some LF
             then Some nextBackticks
             else closingSearch text (nextBackticks + 3))
      else None)"
  by pat_completeness auto
termination
proof (relation "measure (\<lambda>(text, searchPos). length text - searchPos)")
  show "wf (measure (\<lambda>(text, searchPos). length text - searchPos))" by simp
next
  fix t :: jsstring and searchPos nextBackticks :: nat
  assume "searchPos < length t" and "indexOf t (js ''```'') searchPos = Some nextBackticks"
  then show "((t, nextBackticks + 3), (t, searchPos))
               \<in> measure (\<lambda>(text, searchPos). length text - searchPos)"
    using indexOf_ge [of t "js ''```''" searchPos nextBackticks] by simp
qed

declare closingSearch.simps [simp del]

record OutputBlock =
  markerStart :: nat
  contentStart :: nat
  contentEnd :: nat

definition findOutputBlock :: "jsstring \<Rightarrow> jsstring \<Rightarrow> OutputBlock option" where
  "findOutputBlock text execId =
     (let marker = js ''```output:'' @ execId in
      case indexOf text marker 0 of
        None \<Rightarrow> None
      | Some markerStart' \<Rightarrow>
          (case indexOf text [LF] markerStart' of
             None \<Rightarrow> None
           | Some newlineAfterMarker \<Rightarrow>
               (let contentStart' = newlineAfterMarker + 1;
                    contentEnd' = (case closingSearch text contentStart' of
                                     None \<Rightarrow> length text
                                   | Some closingPos \<Rightarrow> closingPos)
                in Some \<lparr>markerStart = markerStart', contentStart = contentStart',
                          contentEnd = contentEnd'\<rparr>)))"

text \<open>
  Modelled from the spec: the shared text of the CRDT runtime, an external collaborator
  that the repository only calls (\<^verbatim>\<open>ytext.toString\<close>, \<^verbatim>\<open>ytext.insert\<close>,
  \<^verbatim>\<open>ytext.delete\<close>). The text is its current string together with the transactions
  committed on it, oldest first; observers and the sync provider are notified once for
  each transaction. An edit made outside \<^verbatim>\<open>doc.transact\<close>, which this repository never
  calls, is a transaction of its own; inserting the empty string and deleting nothing
  commit no transaction. Indices count UTF-16 code units. All edits of the repository
  are inside the text.
\<close>

datatype edit = Delete nat nat | Insert nat jsstring

record YText =
  chars :: jsstring
  transactions :: "edit list list"

definition ytext_insert :: "YText \<Rightarrow> nat \<Rightarrow> jsstring \<Rightarrow> YText" where
  "ytext_insert y index str =
     (if str = [] then y
      else y\<lparr>chars := take index (chars y) @ str @ drop index (chars y),
              transactions := transactions y @ [[Insert index str]]\<rparr>)"

definition ytext_delete :: "YText \<Rightarrow> nat \<Rightarrow> nat \<Rightarrow> YText" where
  "ytext_delete y index len =
     (if len = 0 then y
      else y\<lparr>chars := take index (chars y) @ drop (index + len) (chars y),
              transactions := transactions y @ [[Delete index len]]\<rparr>)"

text \<open>
  \<^verbatim>\<open>appendOutput\<close> and \<^verbatim>\<open>replaceOutput\<close> of the writer bound to the shared text \<open>y\<close>:
  the returned boolean and the text after the call.
\<close>

definition appendOutput :: "YText \<Rightarrow> jsstring \<Rightarrow> jsstring \<Rightarrow> bool \<times> YText" where
  "appendOutput y execId content =
     (case findOutputBlock (chars y) execId of
        None \<Rightarrow> (False, y)
      | Some block \<Rightarrow> (True, ytext_insert y (contentEnd block) content))"

definition replaceOutput :: "YText \<Rightarrow> jsstring \<Rightarrow> jsstring \<Rightarrow> bool \<times> YText" where
  "replaceOutput y execId content =
     (case findOutputBlock (chars y) execId of
        None \<Rightarrow> (False, y)
      | Some block \<Rightarrow>
          (let existingLength = contentEnd block - contentStart block;
               y1 = (if existingLength > 0
                     then ytext_delete y (contentStart block) existingLength else y)
           in (True, ytext_insert y1 (contentStart block) content)))"

text \<open>The pattern \<open>pat\<close> occurs in \<open>text\<close> at index \<open>k\<close>.\<close>

definition occurs_at :: "jsstring \<Rightarrow> jsstring \<Rightarrow> nat \<Rightarrow> bool" where
  "occurs_at pat text k \<longleftrightarrow> k + length pat \<le> length text \<and> take (length pat) (drop k text) = pat"

text \<open>A closing fence at index \<open>q\<close>: three backticks at the start of the text or after a newline.\<close>

definition fence_at :: "jsstring \<Rightarrow> nat \<Rightarrow> bool" where
  "fence_at text q \<longleftrightarrow> occurs_at (js ''```'') text q \<and> (q = 0 \<or> char_at text (q - 1) = Some LF)"


section \<open>Coordination protocol (src/coordination.js)\<close>

text \<open>
  JSON values for the payloads the protocol only carries, and fields that hold a value,
  \<^verbatim>\<open>null\<close> or (when the key was never set) \<^verbatim>\<open>undefined\<close>.
\<close>

datatype json =
  JNull | JBool bool | JNum int | JStr jsstring | JArr "json list" | JObj "(jsstring \<times> json) list"

datatype 'a nullable = Undefined | Null | Value 'a

definition REQUESTED :: jsstring where "REQUESTED = js ''requested''"
definition CLAIMED :: jsstring where "CLAIMED = js ''claimed''"
definition READY :: jsstring where "READY = js ''ready''"
definition RUNNING :: jsstring where "RUNNING = js ''running''"
definition COMPLETED :: jsstring where "COMPLETED = js ''completed''"
definition ERROR :: jsstring where "ERROR = js ''error''"
definition CANCELLED :: jsstring where "CANCELLED = js ''cancelled''"

text \<open>
  The execution record (\<^verbatim>\<open>ExecutionRequest\<close>), with the fields in the order in which
  \<^verbatim>\<open>requestExecution\<close> writes them. Client ids and timestamps (\<^verbatim>\<open>Date.now()\<close>, the
  milliseconds since the epoch) are natural numbers.
\<close>

record ExecutionRequest =
  exec_id :: jsstring
  cellId :: "jsstring nullable"
  code :: jsstring
  language :: jsstring
  runtimeUrl :: jsstring
  session :: "jsstring nullable"
  status :: jsstring
  requestedBy :: nat
  requestedAt :: nat
  claimedBy :: "nat nullable"
  claimedAt :: "nat nullable"
  outputBlockReady :: bool
  outputPosition :: json
  startedAt :: "nat nullable"
  completedAt :: "nat nullable"
  stdinRequest :: json
  stdinResponse :: json
  result :: json
  error :: json
  displayData :: "json list"

text \<open>
  The protocol object: this client's id and the shared map \<^verbatim>\<open>executions\<close>, from
  execution ids to records.
\<close>

record CoordinationProtocol =
  clientId :: nat
  executions :: "jsstring \<rightharpoonup> ExecutionRequest"

text \<open>
  \<^verbatim>\<open>claimExecution(execId)\<close> at time \<open>now\<close>: the returned boolean and the protocol object
  after the call. The new record is the spread of the old one with three keys replaced.
\<close>

definition claimExecution ::
    "CoordinationProtocol \<Rightarrow> nat \<Rightarrow> jsstring \<Rightarrow> bool \<times> CoordinationProtocol" where
  "claimExecution p now execId =
     (case executions p execId of
        None \<Rightarrow> (False, p)
      | Some exec \<Rightarrow>
          if status exec \<noteq> REQUESTED then (False, p)
          else if claimedBy exec \<noteq> Null then (False, p)
          else (True,
                p\<lparr>executions := (executions p)(execId \<mapsto>
                     exec\<lparr>status := CLAIMED, claimedBy := Value (clientId p),
                          claimedAt := Value now\<rparr>)\<rparr>))"

text \<open>
  \<^verbatim>\<open>generateExecId\<close>. The clock is the natural number \<open>now\<close>, printed in decimal by the
  template string (a time value is below \<open>10^21\<close>, where the printing of numbers
  changes). The random number, in the interval from 0 to 1, is given by the digits \<open>rnd\<close>
  of the base-36 fraction that \<^verbatim>\<open>toString(36)\<close> prints for it: \<^verbatim>\<open>0\<close> for the number 0, and
  otherwise \<^verbatim>\<open>0.\<close> followed by the digits, as many as it takes to tell the number from its
  neighbours (one digit \<^verbatim>\<open>i\<close> for 0.5).
\<close>

fun decimal :: "nat \<Rightarrow> jsstring" where
  "decimal n = (if n < 10 then [48 + n] else decimal (n div 10) @ [48 + n mod 10])"

declare decimal.simps [simp del]

definition base36_digit :: "nat \<Rightarrow> nat" where
  "base36_digit d = (if d < 10 then 48 + d else 87 + d)"

definition toString36 :: "nat list \<Rightarrow> jsstring" where
  "toString36 rnd = (if rnd = [] then js ''0'' else js ''0.'' @ map base36_digit rnd)"

text \<open>\<^verbatim>\<open>s.slice(b, e)\<close> for indices \<open>0 \<le> b \<le> e\<close>.\<close>

definition slice :: "jsstring \<Rightarrow> nat \<Rightarrow> nat \<Rightarrow> jsstring" where
  "slice s b e = take (e - b) (drop b s)"

definition generateExecId :: "nat \<Rightarrow> nat list \<Rightarrow> jsstring" where
  "generateExecId now rnd = js ''exec-'' @ decimal now @ js ''-'' @ slice (toString36 rnd) 2 8"

text \<open>
  Matching the whole string against \<^verbatim>\<open>^exec-\d+-[0-9a-z]{6}$\<close>: a hyphen is no digit,
  so \<^verbatim>\<open>\d+\<close> can only match the longest run of digits after \<^verbatim>\<open>exec-\<close>.
\<close>

definition isDigit :: "nat \<Rightarrow> bool" where
  "isDigit c \<longleftrightarrow> 48 \<le> c \<and> c \<le> 57"

definition isBase36 :: "nat \<Rightarrow> bool" where
  "isBase36 c \<longleftrightarrow> isDigit c \<or> (97 \<le> c \<and> c \<le> 122)"

definition matches_exec_id :: "jsstring \<Rightarrow> bool" where
  "matches_exec_id s =
     (let digits = takeWhile isDigit (drop 5 s);
          rest = drop (5 + length digits) s
      in take 5 s = js ''exec-'' \<and> digits \<noteq> [] \<and> take 1 rest = js ''-'' \<and>
         length (drop 1 rest) = 6 \<and> list_all isBase36 (drop 1 rest))"


section \<open>Execution handler (src/execution.js)\<close>

text \<open>
  The handler keeps the map \<^verbatim>\<open>_activeExecutions\<close> from execution ids to abort
  controllers. A controller is identified by a number, and the handler state records
  which controllers have been aborted.
\<close>

type_synonym controller = nat

record ExecutionHandler =
  activeExecutions :: "(jsstring, controller) mapping"
  abortedSignals :: "controller set"

definition new_ExecutionHandler :: ExecutionHandler where
  "new_ExecutionHandler = \<lparr>activeExecutions = Mapping.empty, abortedSignals = {}\<rparr>"

definition cancel :: "ExecutionHandler \<Rightarrow> jsstring \<Rightarrow> ExecutionHandler" where
  "cancel h execId =
     (case Mapping.lookup (activeExecutions h) execId of
        None \<Rightarrow> h
      | Some c \<Rightarrow> h\<lparr>abortedSignals := insert c (abortedSignals h)\<rparr>)"

definition cancelAll :: "ExecutionHandler \<Rightarrow> ExecutionHandler" where
  "cancelAll h =
     h\<lparr>abortedSignals := abortedSignals h \<union>
          ran (Mapping.lookup (activeExecutions h)),
       activeExecutions := Mapping.empty\<rparr>"

definition isActive :: "ExecutionHandler \<Rightarrow> jsstring \<Rightarrow> bool" where
  "isActive h execId \<longleftrightarrow> Mapping.lookup (activeExecutions h) execId \<noteq> None"

definition activeCount :: "ExecutionHandler \<Rightarrow> nat" where
  "activeCount h = Mapping.size (activeExecutions h)"

text \<open>
  \<^verbatim>\<open>execute\<close> is an asynchronous function. It runs without interruption up to its first
  \<^verbatim>\<open>await\<close>: it creates the controller \<open>c\<close> and registers it under \<open>execId\<close> when that is
  truthy, that is neither \<^verbatim>\<open>undefined\<close> (here \<open>None\<close>) nor the empty string
  (\<open>execute_register\<close>). The \<^verbatim>\<open>try\<close> block then either returns a result or throws;
  \<open>execute_settle\<close> is what the \<^verbatim>\<open>catch\<close> and \<^verbatim>\<open>finally\<close> clauses make of that outcome,
  in the handler state of that moment: the new handler state, the calls of
  \<^verbatim>\<open>callbacks.onError\<close> with their arguments, and how the call settles (the returned
  value, or the error thrown to the caller).
\<close>

datatype js_error = JsError (err_name: jsstring) (err_message: jsstring)

datatype 'a outcome = Returned 'a | Threw js_error

record ExecutionCallbacks =
  has_onError :: bool

definition execute_register ::
    "ExecutionHandler \<Rightarrow> jsstring option \<Rightarrow> controller \<Rightarrow> ExecutionHandler" where
  "execute_register h execId c =
     (case execId of
        Some e \<Rightarrow>
          if e \<noteq> [] then h\<lparr>activeExecutions := Mapping.update e c (activeExecutions h)\<rparr> else h
      | None \<Rightarrow> h)"

definition aborted_result :: json where
  "aborted_result =
     JObj [(js ''success'', JBool False),
           (js ''error'', JObj [(js ''type'', JStr (js ''Aborted'')),
                               (js ''message'', JStr (js ''Execution cancelled''))])]"

definition execute_settle ::
    "ExecutionHandler \<Rightarrow> jsstring option \<Rightarrow> ExecutionCallbacks \<Rightarrow> json outcome \<Rightarrow>
     ExecutionHandler \<times> json list \<times> json outcome" where
  "execute_settle h execId callbacks body =
     (let (onError_calls, settled) =
            (case body of
               Returned r \<Rightarrow> ([], Returned r)
             | Threw err \<Rightarrow>
                 if err_name err = js ''AbortError'' then ([], Returned aborted_result)
                 else
                   ((if has_onError callbacks
                     then [JObj [(js ''type'', JStr (js ''ConnectionError'')),
                                 (js ''message'', JStr (err_message err))]]
                     else []),
                    Threw err));
          h' = (case execId of
                  Some e \<Rightarrow>
                    if e \<noteq> [] then h\<lparr>activeExecutions := Mapping.delete e (activeExecutions h)\<rparr>
                    else h
                | None \<Rightarrow> h)
      in (h', onError_calls, settled))"


text \<open>No falsy key is ever registered.\<close>

definition registry_ok :: "ExecutionHandler \<Rightarrow> bool" where
  "registry_ok h \<longleftrightarrow> [] \<notin> Mapping.keys (activeExecutions h)"


section \<open>Example values\<close>

text \<open>
  An execution record as \<^verbatim>\<open>requestExecution\<close> writes it (client 7, no cell id), and a
  handler with one execution registered.
\<close>

definition example_request :: ExecutionRequest where
  "example_request =
     \<lparr>exec_id = js ''exec-1'', cellId = Undefined, code = js ''print(1)'',
      language = js ''python'', runtimeUrl = js ''http://localhost:8000/mrp/v1'',
      session = Value (js ''default''), status = js ''requested'', requestedBy = 7,
      requestedAt = 1700000000000, claimedBy = Null, claimedAt = Null,
      outputBlockReady = False, outputPosition = JNull, startedAt = Null, completedAt = Null,
      stdinRequest = JNull, stdinResponse = JNull, result = JNull, error = JNull,
      displayData = []\<rparr>"

definition example_handler :: ExecutionHandler where
  "example_handler = execute_register new_ExecutionHandler (Some (js ''exec-1'')) 0"


section \<open>The terminal buffer: evaluation and chunk boundaries\<close>

text \<open>The equations that evaluate the buffer on a given input.\<close>

lemmas term_ev = write_def write_loop.simps writeOne_def writeChar_def ensureRow_def array_get_def
  array_set_def char_at_def js_def parseEscapeSequence_def Let_def isParamByte_def param_or1_def
  parseIntOr0_def toString_def popEmpty_def trimEnd_def isWhiteSpace_def new_TerminalBuffer_def
  clearToEndOfLine_def clearFromStartOfLine_def clearLine_def clearToEndOfScreen_def
  clearFromStartOfScreen_def clearScreen_def processTerminalOutput_def

subsection \<open>Two worked inputs\<close>

text \<open>
  The second input of claim C8 does not leave \<^verbatim>\<open>over \<close> on row 0: the cursor goes up to
  row 0 and \<^verbatim>\<open>over\<close> overwrites the first four characters of \<^verbatim>\<open>line1\<close>, whose fifth
  character stays.
\<close>

theorem projector_examples_counterexample:
  "\<not> (processTerminalOutput (js ''hi'' @ [CR] @ js ''HELLO'') = Inr (js ''HELLO'') \<and>
      map_sum id (\<lambda>s. (array_get (lines s) 0, array_get (lines s) 1))
        (write new_TerminalBuffer (js ''line1'' @ [LF] @ js ''line2'' @ [CR, ESC] @ js ''[1Aover''))
      = Inr (Some (js ''over ''), Some (js ''line2'')))"
  by (simp add: term_ev)

text \<open>
  Claim C8, amended: feeding \<^verbatim>\<open>hi\rHELLO\<close> into a fresh buffer gives the snapshot
  \<^verbatim>\<open>HELLO\<close>; feeding \<^verbatim>\<open>line1\nline2\r\x1b[1Aover\<close> gives a buffer whose row 0 is
  \<^verbatim>\<open>over1\<close> and whose row 1 is \<^verbatim>\<open>line2\<close>, and the snapshot \<^verbatim>\<open>over1\nline2\<close>.
\<close>

theorem projector_examples:
  "processTerminalOutput (js ''hi'' @ [CR] @ js ''HELLO'') = Inr (js ''HELLO'') \<and>
   map_sum id (\<lambda>s. (array_get (lines s) 0, array_get (lines s) 1))
     (write new_TerminalBuffer (js ''line1'' @ [LF] @ js ''line2'' @ [CR, ESC] @ js ''[1Aover''))
     = Inr (Some (js ''over1''), Some (js ''line2'')) \<and>
   processTerminalOutput (js ''line1'' @ [LF] @ js ''line2'' @ [CR, ESC] @ js ''[1Aover'')
     = Inr (js ''over1'' @ [LF] @ js ''line2'')"
  by (simp add: term_ev)

subsection \<open>Erasing with the parameter 0\<close>

text \<open>
  Claim C3 says that \<^verbatim>\<open>ESC [ 0 J\<close> and \<^verbatim>\<open>ESC [ 0 K\<close> erase from the cursor to the end of
  the screen and of the line, as the sequences without parameter do. The code tests
  \<^verbatim>\<open>n === 0\<close> for that, but \<open>n\<close> is \<^verbatim>\<open>nums[0] || 1\<close>, which is 1 for the parameter 0: in
  every buffer state the two sequences erase from the start of the line and of the
  screen through the cursor, as the parameter 1 does. On \<^verbatim>\<open>hello\<close>, with the cursor moved
  to column 2, \<^verbatim>\<open>ESC [ 0 K\<close> leaves three spaces and \<^verbatim>\<open>lo\<close> where \<^verbatim>\<open>ESC [ K\<close> leaves \<^verbatim>\<open>he\<close>.
\<close>

theorem erase_parameter_zero:
  "fst (parseEscapeSequence (ESC # js ''[0K'') 0 s) = clearFromStartOfLine s \<and>
   fst (parseEscapeSequence (ESC # js ''[K'') 0 s) = clearToEndOfLine s \<and>
   fst (parseEscapeSequence (ESC # js ''[0J'') 0 s) = clearFromStartOfScreen s \<and>
   fst (parseEscapeSequence (ESC # js ''[J'') 0 s) = clearToEndOfScreen s \<and>
   processTerminalOutput (js ''hello'' @ [CR, ESC] @ js ''[2C'' @ [ESC] @ js ''[0K'') = Inr (js ''   lo'') \<and>
   processTerminalOutput (js ''hello'' @ [CR, ESC] @ js ''[2C'' @ [ESC] @ js ''[K'') = Inr (js ''he'') \<and>
   processTerminalOutput (js ''ab'' @ [LF] @ js ''cd'' @ [ESC] @ js ''[1;2H'' @ [ESC] @ js ''[0J'') = Inr (LF # js ''cd'') \<and>
   processTerminalOutput (js ''ab'' @ [LF] @ js ''cd'' @ [ESC] @ js ''[1;2H'' @ [ESC] @ js ''[J'') = Inr (js ''a'')"
proof -
  have 1: "fst (parseEscapeSequence (ESC # js ''[0K'') 0 s) = clearFromStartOfLine s"
    by (simp add: parseEscapeSequence_def Let_def js_def char_at_def isParamByte_def param_or1_def parseIntOr0_def)
  have 2: "fst (parseEscapeSequence (ESC # js ''[K'') 0 s) = clearToEndOfLine s"
    by (simp add: parseEscapeSequence_def Let_def js_def char_at_def isParamByte_def param_or1_def parseIntOr0_def)
  have 3: "fst (parseEscapeSequence (ESC # js ''[0J'') 0 s) = clearFromStartOfScreen s"
    by (simp add: parseEscapeSequence_def Let_def js_def char_at_def isParamByte_def param_or1_def parseIntOr0_def)
  have 4: "fst (parseEscapeSequence (ESC # js ''[J'') 0 s) = clearToEndOfScreen s"
    by (simp add: parseEscapeSequence_def Let_def js_def char_at_def isParamByte_def param_or1_def parseIntOr0_def)
  have 5: "processTerminalOutput (js ''hello'' @ [CR, ESC] @ js ''[2C'' @ [ESC] @ js ''[0K'') = Inr (js ''   lo'')"
    by (simp add: term_ev)
  have 6: "processTerminalOutput (js ''hello'' @ [CR, ESC] @ js ''[2C'' @ [ESC] @ js ''[K'') = Inr (js ''he'')"
    by (simp add: term_ev)
  have 7: "processTerminalOutput (js ''ab'' @ [LF] @ js ''cd'' @ [ESC] @ js ''[1;2H'' @ [ESC] @ js ''[0J'') = Inr (LF # js ''cd'')"
    by (simp add: term_ev)
  have 8: "processTerminalOutput (js ''ab'' @ [LF] @ js ''cd'' @ [ESC] @ js ''[1;2H'' @ [ESC] @ js ''[J'') = Inr (js ''a'')"
    by (simp add: term_ev)
  from 1 2 3 4 5 6 7 8 show ?thesis by blast
qed

subsection \<open>Chunk boundaries\<close>

text \<open>
  A chunk that ends inside an escape sequence breaks the independence of claim C2:
  \<^verbatim>\<open>write\<close> keeps nothing of an unfinished sequence, so the \<^verbatim>\<open>ESC\<close> that ends the first
  chunk is dropped and the next chunk is printed as text.
\<close>

theorem chunk_split_escape_counterexample:
  "snapshot_of_chunks [js ''ab'' @ [ESC], js ''[2K''] = Inr (js ''ab[2K'') \<and>
   processTerminalOutput (concat [js ''ab'' @ [ESC], js ''[2K'']) = Inr [] \<and>
   snapshot_of_chunks [js ''ab'' @ [ESC], js ''[2K'']
     \<noteq> processTerminalOutput (concat [js ''ab'' @ [ESC], js ''[2K''])"
  by (simp add: term_ev snapshot_of_chunks_def)

text \<open>
  What the control sequence at \<open>i\<close> reads lies between \<open>i\<close> and its command byte, so
  it is the same in a longer text, and it moves with the text.
\<close>

lemma char_at_append_left: "k < length a \<Longrightarrow> char_at (a @ b) k = char_at a k"
  by (simp add: char_at_def nth_append)

lemma char_at_append_right: "char_at (a @ b) (length a + k) = char_at b k"
  by (simp add: char_at_def nth_append)

lemma takeWhile_append_left:
  "length (takeWhile P xs) < length xs \<Longrightarrow> takeWhile P (xs @ ys) = takeWhile P xs"
  by (induction xs) auto

lemma csi_cmd_index_prefix:
  assumes "csi_cmd_index a i < length a"
  shows "csi_cmd_index (a @ b) i = csi_cmd_index a i"
proof -
  have i2: "i + 2 < length a"
    using assms by (simp add: csi_cmd_index_def Let_def split: if_splits)
  then have q: "char_at (a @ b) (i + 2) = char_at a (i + 2)"
    by (rule char_at_append_left)
  define j where "j = (if char_at a (i + 2) = Some (cu CHR ''?'') then i + 2 + 1 else i + 2)"
  have j: "j + length (takeWhile isParamByte (drop j a)) < length a"
    using assms unfolding csi_cmd_index_def Let_def j_def .
  then have "j \<le> length a" by simp
  then have "drop j (a @ b) = drop j a @ b" by simp
  moreover have "length (takeWhile isParamByte (drop j a)) < length (drop j a)"
    using j by simp
  ultimately have "takeWhile isParamByte (drop j (a @ b)) = takeWhile isParamByte (drop j a)"
    by (simp add: takeWhile_append_left)
  then show ?thesis
    unfolding csi_cmd_index_def Let_def q j_def [symmetric] by simp
qed

lemma parseEscapeSequence_prefix:
  assumes "csi_cmd_index a i < length a"
  shows "parseEscapeSequence (a @ b) i s = parseEscapeSequence a i s"
proof -
  have i2: "i + 2 < length a"
    using assms by (simp add: csi_cmd_index_def Let_def split: if_splits)
  then have q: "char_at (a @ b) (i + 2) = char_at a (i + 2)"
    by (rule char_at_append_left)
  define j where "j = (if char_at a (i + 2) = Some (cu CHR ''?'') then i + 2 + 1 else i + 2)"
  have j: "j + length (takeWhile isParamByte (drop j a)) < length a"
    using assms unfolding csi_cmd_index_def Let_def j_def .
  then have "j \<le> length a" by simp
  then have "drop j (a @ b) = drop j a @ b" by simp
  moreover have "length (takeWhile isParamByte (drop j a)) < length (drop j a)"
    using j by simp
  ultimately have tw: "takeWhile isParamByte (drop j (a @ b)) = takeWhile isParamByte (drop j a)"
    by (simp add: takeWhile_append_left)
  have c: "char_at (a @ b) (j + length (takeWhile isParamByte (drop j a)))
         = char_at a (j + length (takeWhile isParamByte (drop j a)))"
    using j by (rule char_at_append_left)
  show ?thesis
    unfolding parseEscapeSequence_def Let_def q j_def [symmetric] tw c ..
qed


lemma snd_parseEscapeSequence: "snd (parseEscapeSequence text i s) = csi_cmd_index text i + 1"
  by (simp add: parseEscapeSequence_def csi_cmd_index_def Let_def)


lemma csi_shift_facts:
  fixes a b :: jsstring
  defines "j \<equiv> \<lambda>i. (if char_at b (i + 2) = Some (cu CHR ''?'') then i + 2 + 1 else i + 2)"
  shows "char_at (a @ b) (length a + i + 2) = char_at b (i + 2)"
    and "(if char_at b (i + 2) = Some (cu CHR ''?'') then length a + i + 2 + 1 else length a + i + 2)
           = length a + j i"
    and "drop (length a + k) (a @ b) = drop k b"
    and "char_at (a @ b) (length a + k + n) = char_at b (k + n)"
  using char_at_append_right [of a b "i + 2"] char_at_append_right [of a b "k + n"]
  by (simp_all add: add.assoc j_def)

lemma csi_cmd_index_shift: "csi_cmd_index (a @ b) (length a + i) = length a + csi_cmd_index b i"
  unfolding csi_cmd_index_def Let_def csi_shift_facts by (simp add: add.assoc)

lemma fst_parseEscapeSequence_shift:
  "fst (parseEscapeSequence (a @ b) (length a + i) s) = fst (parseEscapeSequence b i s)"
  unfolding parseEscapeSequence_def Let_def csi_shift_facts
  by (simp add: if_distrib [of fst] split del: if_split cong: if_cong)

lemma parseEscapeSequence_shift:
  "parseEscapeSequence (a @ b) (length a + i) s =
     (fst (parseEscapeSequence b i s), length a + snd (parseEscapeSequence b i s))"
  by (simp add: prod_eq_iff fst_parseEscapeSequence_shift snd_parseEscapeSequence csi_cmd_index_shift)


lemma write_loop_shift: "write_loop (a @ b) (length a + i) s = write_loop b i s"
proof (induction b i s rule: write_loop.induct)
  case (1 b i s)
  show ?case
  proof (cases "i < length b")
    case False
    then show ?thesis by (simp add: write_loop.simps)
  next
    case lt: True
    show ?thesis
    proof (cases "b ! i = ESC \<and> char_at b (i + 1) = Some (cu CHR ''['')")
      case esc: True
      obtain s1 j where p: "parseEscapeSequence b i s = (s1, j)"
        by (cases "parseEscapeSequence b i s")
      have "write_loop (a @ b) (length a + i) s = write_loop (a @ b) (length a + j) s1"
        using lt esc p char_at_append_right [of a b "i + 1"]
        by (subst write_loop.simps) (simp add: parseEscapeSequence_shift nth_append add.assoc)
      also have "\<dots> = write_loop b j s1"
        using "1.IH"(1) [OF lt esc p [symmetric]] .
      also have "\<dots> = write_loop b i s"
        using lt esc p by (subst (2) write_loop.simps) simp
      finally show ?thesis .
    next
      case noesc: False
      show ?thesis
      proof (cases "writeOne (b ! i) s")
        case (Inl e)
        have "write_loop (a @ b) (length a + i) s = Inl e"
          using lt noesc Inl char_at_append_right [of a b "i + 1"]
          by (subst write_loop.simps) (auto simp add: nth_append add.assoc)
        moreover have "write_loop b i s = Inl e"
          using lt noesc Inl by (subst write_loop.simps) auto
        ultimately show ?thesis by simp
      next
        case (Inr s1)
        have "write_loop (a @ b) (length a + i) s = write_loop (a @ b) (length a + (i + 1)) s1"
          using lt noesc Inr char_at_append_right [of a b "i + 1"]
          by (subst write_loop.simps) (auto simp add: nth_append add.assoc)
        also have "\<dots> = write_loop b (i + 1) s1"
          using "1.IH"(2) [OF lt noesc Inr] .
        also have "\<dots> = write_loop b i s"
          using lt noesc Inr by (subst (2) write_loop.simps) auto
        finally show ?thesis .
      qed
    qed
  qed
qed


lemma write_loop_prefix:
  "self_contained_from a i \<Longrightarrow> i \<le> length a \<Longrightarrow>
   write_loop (a @ b) i s =
     (case write_loop a i s of Inl e \<Rightarrow> Inl e | Inr s1 \<Rightarrow> write_loop (a @ b) (length a) s1)"
proof (induction a i s rule: write_loop.induct)
  case (1 a i s)
  show ?case
  proof (cases "i < length a")
    case False
    with "1.prems" have "i = length a" by simp
    then show ?thesis by (simp add: write_loop.simps [of a])
  next
    case lt: True
    then have nth: "(a @ b) ! i = a ! i" by (simp add: nth_append)
    from lt have lt2: "i < length (a @ b)" by simp
    show ?thesis
    proof (cases "a ! i = ESC \<and> char_at a (i + 1) = Some (cu CHR ''['')")
      case esc: True
      from "1.prems"(1) lt esc
      have cmd: "csi_cmd_index a i < length a"
        and sc: "self_contained_from a (csi_cmd_index a i + 1)"
        by (subst (asm) self_contained_from.simps, simp)+
      from esc have "i + 1 < length a" by (simp add: char_at_def split: if_splits)
      then have ch: "char_at (a @ b) (i + 1) = char_at a (i + 1)" by (rule char_at_append_left)
      obtain s1 j where p: "parseEscapeSequence a i s = (s1, j)"
        by (cases "parseEscapeSequence a i s")
      then have j: "j = csi_cmd_index a i + 1"
        using snd_parseEscapeSequence [of a i s] by simp
      have pb: "parseEscapeSequence (a @ b) i s = (s1, j)"
        using parseEscapeSequence_prefix [OF cmd] p by simp
      have "write_loop (a @ b) i s = write_loop (a @ b) j s1"
        using lt2 esc nth ch pb by (subst write_loop.simps) simp
      also have "\<dots> = (case write_loop a j s1 of Inl e \<Rightarrow> Inl e
                         | Inr s2 \<Rightarrow> write_loop (a @ b) (length a) s2)"
        using "1.IH"(1) [OF lt esc p [symmetric]] sc cmd j by simp
      also have "write_loop a j s1 = write_loop a i s"
        using lt esc p by (subst (2) write_loop.simps) simp
      finally show ?thesis .
    next
      case noesc: False
      have next_sc: "self_contained_from a (i + 1)"
        using "1.prems"(1) lt noesc
        by (subst (asm) self_contained_from.simps) (auto split: if_splits)
      have noesc_b: "\<not> ((a @ b) ! i = ESC \<and> char_at (a @ b) (i + 1) = Some (cu CHR ''[''))"
      proof (cases "a ! i = ESC")
        case False
        then show ?thesis by (simp add: nth)
      next
        case True
        with "1.prems"(1) lt noesc have "i + 1 < length a"
          by (subst (asm) self_contained_from.simps) (auto split: if_splits)
        then have "char_at (a @ b) (i + 1) = char_at a (i + 1)" by (rule char_at_append_left)
        with noesc True show ?thesis by simp
      qed
      show ?thesis
      proof (cases "writeOne (a ! i) s")
        case (Inl e)
        have "write_loop (a @ b) i s = Inl e"
          using lt2 noesc_b Inl nth by (subst write_loop.simps) auto
        moreover have "write_loop a i s = Inl e"
          using lt noesc Inl by (subst write_loop.simps) auto
        ultimately show ?thesis by simp
      next
        case (Inr s1)
        have "write_loop (a @ b) i s = write_loop (a @ b) (i + 1) s1"
          using lt2 noesc_b Inr nth by (subst write_loop.simps) auto
        also have "\<dots> = (case write_loop a (i + 1) s1 of Inl e \<Rightarrow> Inl e
                          | Inr s2 \<Rightarrow> write_loop (a @ b) (length a) s2)"
          using "1.IH"(2) [OF lt noesc Inr next_sc] lt by simp
        also have "write_loop a (i + 1) s1 = write_loop a i s"
          using lt noesc Inr by (subst (2) write_loop.simps) auto
        finally show ?thesis .
      qed
    qed
  qed
qed

text \<open>Writing a self-contained chunk and then more text is writing them in one call.\<close>

lemma write_append:
  assumes "self_contained a"
  shows "write s (a @ b) = (case write s a of Inl e \<Rightarrow> Inl e | Inr s1 \<Rightarrow> write s1 b)"
  using write_loop_prefix [of a 0 b s] write_loop_shift [of a b 0] assms
  by (simp add: write_def self_contained_def split: sum.splits)

lemma write_Nil: "write s [] = Inr s"
  by (simp add: write_def write_loop.simps)

lemma write_all_concat:
  "\<forall>c \<in> set (butlast chunks). self_contained c \<Longrightarrow> write_all s chunks = write s (concat chunks)"
proof (induction chunks arbitrary: s)
  case Nil
  show ?case by (simp add: write_Nil)
next
  case (Cons c cs)
  show ?case
  proof (cases "cs = []")
    case True
    then show ?thesis by (simp add: write_Nil split: sum.splits)
  next
    case False
    with Cons.prems have c: "self_contained c" and rest: "\<forall>d \<in> set (butlast cs). self_contained d"
      by simp_all
    show ?thesis
      by (simp add: write_append [OF c] Cons.IH [OF rest] split: sum.splits)
  qed
qed

text \<open>
  Claim C2, amended: for every list of chunks in which every chunk but the last is
  self-contained (none ends with \<^verbatim>\<open>ESC\<close> or inside a control sequence), writing the
  chunks one by one into a fresh buffer and taking the snapshot gives the same result,
  string or exception, as writing their concatenation into a fresh buffer.
\<close>

theorem chunk_boundary_independence:
  "\<forall>c \<in> set (butlast chunks). self_contained c \<Longrightarrow>
   snapshot_of_chunks chunks = processTerminalOutput (concat chunks)"
  by (simp add: snapshot_of_chunks_def processTerminalOutput_def write_all_concat)

theorem chunk_boundary_independence_witness:
  "self_contained (js ''12%'' @ [CR]) \<and> self_contained (js ''57%'' @ [ESC] @ js ''[K'' @ [CR]) \<and>
   snapshot_of_chunks [js ''12%'' @ [CR], js ''57%'' @ [ESC] @ js ''[K'' @ [CR], js ''100%'']
     = processTerminalOutput (concat [js ''12%'' @ [CR], js ''57%'' @ [ESC] @ js ''[K'' @ [CR], js ''100%'']) \<and>
   processTerminalOutput (concat [js ''12%'' @ [CR], js ''57%'' @ [ESC] @ js ''[K'' @ [CR], js ''100%''])
     = Inr (js ''100%'')"
proof -
  have c1: "self_contained (js ''12%'' @ [CR])"
    and c2: "self_contained (js ''57%'' @ [ESC] @ js ''[K'' @ [CR])"
    by (simp_all add: self_contained_def self_contained_from.simps csi_cmd_index_def char_at_def
        isParamByte_def js_def Let_def)
  then have h: "\<forall>c \<in> set (butlast [js ''12%'' @ [CR], js ''57%'' @ [ESC] @ js ''[K'' @ [CR],
                                     js ''100%'']). self_contained c"
    by simp
  have v: "processTerminalOutput
             (concat [js ''12%'' @ [CR], js ''57%'' @ [ESC] @ js ''[K'' @ [CR], js ''100%''])
           = Inr (js ''100%'')"
    by (simp add: term_ev)
  from c1 c2 chunk_boundary_independence [OF h] v show ?thesis by blast
qed


section \<open>The document writer: locating and replacing the output block\<close>

text \<open>The equations that evaluate the search for the block on a given text.\<close>

lemmas doc_ev = findOutputBlock_def indexOf_def closingSearch.simps js_def char_at_def Let_def

text \<open>
  Claim C5 says that \<^verbatim>\<open>findOutputBlock(execId)\<close> returns no block unless the text has an
  opening marker line with that exact execId, and in particular none when the only
  marker carries a different execId of which the queried one is a proper prefix. The
  code looks for the characters \<^verbatim>\<open>```output:<execId>\<close> with \<^verbatim>\<open>indexOf\<close> and never checks that
  the id ends there. In a text whose only marker is that of \<^verbatim>\<open>exec-12\<close>, the query
  \<^verbatim>\<open>exec-1\<close> returns the block of \<^verbatim>\<open>exec-12\<close>; and when the block of \<^verbatim>\<open>exec-1\<close> follows
  that of \<^verbatim>\<open>exec-12\<close>, the query \<^verbatim>\<open>exec-1\<close> still returns the block of \<^verbatim>\<open>exec-12\<close> and
  not its own, which starts at index 25.
\<close>

theorem findOutputBlock_prefix_match:
  "findOutputBlock (js ''```output:exec-12'' @ [LF] @ js ''hi'' @ [LF] @ js ''```'') (js ''exec-1'')
     = Some \<lparr>markerStart = 0, contentStart = 18, contentEnd = 21\<rparr> \<and>
   findOutputBlock
     (js ''```output:exec-12'' @ [LF] @ js ''hi'' @ [LF] @ js ''```'' @ [LF] @
      js ''```output:exec-1'' @ [LF] @ js ''yo'' @ [LF] @ js ''```'') (js ''exec-1'')
     = Some \<lparr>markerStart = 0, contentStart = 18, contentEnd = 21\<rparr> \<and>
   findOutputBlock
     (js ''```output:exec-12'' @ [LF] @ js ''hi'' @ [LF] @ js ''```'' @ [LF] @
      js ''```output:exec-1'' @ [LF] @ js ''yo'' @ [LF] @ js ''```'') (js ''exec-12'')
     = Some \<lparr>markerStart = 0, contentStart = 18, contentEnd = 21\<rparr> \<and>
   occurs_at (js ''```output:exec-1'' @ [LF])
     (js ''```output:exec-12'' @ [LF] @ js ''hi'' @ [LF] @ js ''```'' @ [LF] @
      js ''```output:exec-1'' @ [LF] @ js ''yo'' @ [LF] @ js ''```'') 25"
  by (simp add: doc_ev occurs_at_def)

text \<open>\<^verbatim>\<open>indexOf\<close> finds the first occurrence at or after the start index.\<close>

lemma occurs_at_Cons: "occurs_at pat (x # xs) (Suc k) = occurs_at pat xs k"
  by (simp add: occurs_at_def)

lemma occurs_at_0: "occurs_at pat xs 0 \<longleftrightarrow> take (length pat) xs = pat"
proof -
  have "length pat \<le> length xs" if "take (length pat) xs = pat"
  proof -
    from that have "length (take (length pat) xs) = length pat" by simp
    then show ?thesis by simp
  qed
  then show ?thesis by (auto simp add: occurs_at_def)
qed

lemma index_from_Some:
  "index_from pat xs k = Some p \<longleftrightarrow>
     k \<le> p \<and> occurs_at pat xs (p - k) \<and> (\<forall>q < p - k. \<not> occurs_at pat xs q)"
proof (induction xs arbitrary: k)
  case Nil
  show ?case by (auto simp add: occurs_at_def)
next
  case (Cons x xs)
  show ?case
  proof (cases "take (length pat) (x # xs) = pat")
    case True
    then have o: "occurs_at pat (x # xs) 0" by (simp add: occurs_at_0)
    show ?thesis
    proof
      assume "index_from pat (x # xs) k = Some p"
      with True have "p = k" by simp
      with o show "k \<le> p \<and> occurs_at pat (x # xs) (p - k) \<and> (\<forall>q < p - k. \<not> occurs_at pat (x # xs) q)"
        by simp
    next
      assume a: "k \<le> p \<and> occurs_at pat (x # xs) (p - k) \<and> (\<forall>q < p - k. \<not> occurs_at pat (x # xs) q)"
      with o have "\<not> 0 < p - k" by blast
      with a have "p = k" by simp
      with True show "index_from pat (x # xs) k = Some p" by simp
    qed
  next
    case False
    then have no: "\<not> occurs_at pat (x # xs) 0" by (simp add: occurs_at_0)
    have "index_from pat (x # xs) k = Some p \<longleftrightarrow> index_from pat xs (Suc k) = Some p"
      using False by simp
    also have "\<dots> \<longleftrightarrow> Suc k \<le> p \<and> occurs_at pat xs (p - Suc k) \<and> (\<forall>q < p - Suc k. \<not> occurs_at pat xs q)"
      by (rule Cons.IH)
    also have "\<dots> \<longleftrightarrow> k \<le> p \<and> occurs_at pat (x # xs) (p - k) \<and> (\<forall>q < p - k. \<not> occurs_at pat (x # xs) q)"
    proof
      assume a: "Suc k \<le> p \<and> occurs_at pat xs (p - Suc k) \<and> (\<forall>q < p - Suc k. \<not> occurs_at pat xs q)"
      then have "Suc k \<le> p" by blast
      then have pk: "p - k = Suc (p - Suc k)" by arith
      have "\<not> occurs_at pat (x # xs) q" if "q < p - k" for q
      proof (cases q)
        case 0 with no show ?thesis by simp
      next
        case (Suc r)
        with that pk have "r < p - Suc k" by simp
        with a Suc show ?thesis by (simp add: occurs_at_Cons)
      qed
      with a pk show "k \<le> p \<and> occurs_at pat (x # xs) (p - k) \<and> (\<forall>q < p - k. \<not> occurs_at pat (x # xs) q)"
        by (simp add: occurs_at_Cons)
    next
      assume a: "k \<le> p \<and> occurs_at pat (x # xs) (p - k) \<and> (\<forall>q < p - k. \<not> occurs_at pat (x # xs) q)"
      with no have "p - k \<noteq> 0" by metis
      then have pk: "p - k = Suc (p - Suc k)" and "Suc k \<le> p" by simp_all
      moreover have "\<not> occurs_at pat xs q" if "q < p - Suc k" for q
      proof -
        from that pk have "Suc q < p - k" by simp
        with a have "\<not> occurs_at pat (x # xs) (Suc q)" by blast
        then show ?thesis by (simp add: occurs_at_Cons)
      qed
      moreover from a pk have "occurs_at pat xs (p - Suc k)" by (simp add: occurs_at_Cons)
      ultimately show "Suc k \<le> p \<and> occurs_at pat xs (p - Suc k) \<and> (\<forall>q < p - Suc k. \<not> occurs_at pat xs q)"
        by simp
    qed
    finally show ?thesis .
  qed
qed

lemma index_from_None: "index_from pat xs k = None \<longleftrightarrow> (\<forall>q. \<not> occurs_at pat xs q)"
proof (induction xs arbitrary: k)
  case Nil
  show ?case by (auto simp add: occurs_at_def)
next
  case (Cons x xs)
  show ?case
  proof (cases "take (length pat) (x # xs) = pat")
    case True
    then have "occurs_at pat (x # xs) 0" by (simp add: occurs_at_0)
    with True show ?thesis by auto
  next
    case False
    then have no: "\<not> occurs_at pat (x # xs) 0" by (simp add: occurs_at_0)
    have "(\<forall>q. \<not> occurs_at pat (x # xs) q) \<longleftrightarrow> (\<forall>q. \<not> occurs_at pat xs q)"
    proof
      assume a: "\<forall>q. \<not> occurs_at pat (x # xs) q"
      show "\<forall>q. \<not> occurs_at pat xs q"
      proof
        fix q from a have "\<not> occurs_at pat (x # xs) (Suc q)" by blast
        then show "\<not> occurs_at pat xs q" by (simp add: occurs_at_Cons)
      qed
    next
      assume a: "\<forall>q. \<not> occurs_at pat xs q"
      show "\<forall>q. \<not> occurs_at pat (x # xs) q"
      proof
        fix q show "\<not> occurs_at pat (x # xs) q"
          using no a by (cases q) (simp_all add: occurs_at_Cons)
      qed
    qed
    with False Cons.IH [of "Suc k"] show ?thesis by simp
  qed
qed

lemma occurs_at_drop: "start \<le> length text \<Longrightarrow> occurs_at pat (drop start text) q = occurs_at pat text (start + q)"
  by (auto simp add: occurs_at_def add.commute)

lemma indexOf_Some:
  assumes "start \<le> length text"
  shows "indexOf text pat start = Some p \<longleftrightarrow>
     start \<le> p \<and> occurs_at pat text p \<and> (\<forall>q. start \<le> q \<and> q < p \<longrightarrow> \<not> occurs_at pat text q)"
proof -
  have m: "min start (length text) = start" using assms by simp
  have "(\<forall>q<p - start. \<not> occurs_at pat text (start + q)) \<longleftrightarrow> (\<forall>q. start \<le> q \<and> q < p \<longrightarrow> \<not> occurs_at pat text q)"
    if "start \<le> p"
  proof
    assume a: "\<forall>q<p - start. \<not> occurs_at pat text (start + q)"
    show "\<forall>q. start \<le> q \<and> q < p \<longrightarrow> \<not> occurs_at pat text q"
    proof (intro allI impI)
      fix q assume "start \<le> q \<and> q < p"
      then have "q - start < p - start" and "start + (q - start) = q" by arith+
      with a show "\<not> occurs_at pat text q" by metis
    qed
  next
    assume "\<forall>q. start \<le> q \<and> q < p \<longrightarrow> \<not> occurs_at pat text q"
    then show "\<forall>q<p - start. \<not> occurs_at pat text (start + q)" by simp
  qed
  then show ?thesis
    unfolding indexOf_def m index_from_Some
    using assms by (auto simp add: occurs_at_drop)
qed

lemma indexOf_None:
  assumes "start \<le> length text"
  shows "indexOf text pat start = None \<longleftrightarrow> (\<forall>q \<ge> start. \<not> occurs_at pat text q)"
proof -
  have "(\<forall>q. \<not> occurs_at pat text (start + q)) \<longleftrightarrow> (\<forall>q \<ge> start. \<not> occurs_at pat text q)"
    by (metis le_add1 le_add_diff_inverse)
  then show ?thesis
    unfolding indexOf_def index_from_None using assms by (simp add: occurs_at_drop)
qed


lemma occurs_at_LF: "occurs_at [LF] text j \<longleftrightarrow> j < length text \<and> text ! j = LF"
proof (cases "j < length text")
  case True
  then have "drop j text = text ! j # drop (Suc j) text" by (simp add: Cons_nth_drop_Suc)
  with True show ?thesis by (simp add: occurs_at_def)
next
  case False
  then show ?thesis by (simp add: occurs_at_def)
qed

lemma occurs_at_le: "occurs_at pat text k \<Longrightarrow> k + length pat \<le> length text"
  by (simp add: occurs_at_def)

lemma closingSearch_Some:
  "closingSearch t searchPos = Some p \<Longrightarrow>
     searchPos \<le> p \<and> occurs_at (js ''```'') t p \<and> (p = 0 \<or> char_at t (p - 1) = Some LF)"
proof (induction t searchPos rule: closingSearch.induct)
  case (1 t searchPos)
  from "1.prems" have lt: "searchPos < length t"
    by (subst (asm) closingSearch.simps) (simp split: if_splits)
  with "1.prems" obtain nb where nb: "indexOf t (js ''```'') searchPos = Some nb"
    by (subst (asm) closingSearch.simps) (auto split: option.splits)
  from lt have "searchPos \<le> length t" by simp
  from nb indexOf_Some [OF this] have ge: "searchPos \<le> nb" and occ: "occurs_at (js ''```'') t nb"
    by simp_all
  show ?case
  proof (cases "nb = 0 \<or> char_at t (nb - 1) = Some LF")
    case True
    with "1.prems" lt nb have "p = nb"
      by (subst (asm) closingSearch.simps) auto
    with True ge occ show ?thesis by simp
  next
    case False
    with "1.prems" lt nb have "closingSearch t (nb + 3) = Some p"
      by (subst (asm) closingSearch.simps) auto
    from "1.IH" [OF lt nb False this] ge show ?thesis by auto
  qed
qed

text \<open>
  The loop skips three code units after a fence that does not start a line; no fence
  that starts a line begins inside the one skipped, so the loop finds the first one.
\<close>

lemma occurs_at_fence_nth:
  assumes "occurs_at (js ''```'') t k"
  shows "k + 2 < length t" and "t ! k = 96" and "t ! (k + 1) = 96"
proof -
  have j: "js ''```'' = [96, 96, 96]" by (simp add: js_def)
  from assms have "k + length [96, 96, 96::nat] \<le> length t"
    and "take (length [96, 96, 96::nat]) (drop k t) = [96, 96, 96]"
    unfolding occurs_at_def j by blast+
  then have len: "k + 3 \<le> length t" and tk: "take 3 (drop k t) = [96, 96, 96]"
    by (simp_all add: numeral_3_eq_3)
  from len show "k + 2 < length t" by simp
  from len have "take 3 (drop k t) ! 0 = t ! k" and "take 3 (drop k t) ! 1 = t ! (k + 1)"
    by simp_all
  with tk show "t ! k = 96" and "t ! (k + 1) = 96" by simp_all
qed

lemma not_fence_inside:
  assumes "occurs_at (js ''```'') t k"
  shows "\<not> fence_at t (k + 1)" and "\<not> fence_at t (k + 2)"
  using occurs_at_fence_nth [OF assms]
  by (auto simp add: fence_at_def char_at_def)

lemma closingSearch_least:
  "closingSearch t searchPos = Some p \<Longrightarrow> searchPos \<le> q \<Longrightarrow> q < p \<Longrightarrow> \<not> fence_at t q"
proof (induction t searchPos rule: closingSearch.induct)
  case (1 t searchPos)
  from "1.prems" have lt: "searchPos < length t"
    by (subst (asm) closingSearch.simps) (simp split: if_splits)
  with "1.prems" obtain nb where nb: "indexOf t (js ''```'') searchPos = Some nb"
    by (subst (asm) closingSearch.simps) (auto split: option.splits)
  from lt have "searchPos \<le> length t" by simp
  from nb indexOf_Some [OF this]
  have ge: "searchPos \<le> nb" and occ: "occurs_at (js ''```'') t nb"
    and least: "\<forall>r. searchPos \<le> r \<and> r < nb \<longrightarrow> \<not> occurs_at (js ''```'') t r"
    by simp_all
  show ?case
  proof (cases "nb = 0 \<or> char_at t (nb - 1) = Some LF")
    case True
    with "1.prems" lt nb have "p = nb"
      by (subst (asm) closingSearch.simps) auto
    with least "1.prems" show ?thesis by (simp add: fence_at_def)
  next
    case False
    with "1.prems" lt nb have rec: "closingSearch t (nb + 3) = Some p"
      by (subst (asm) closingSearch.simps) auto
    consider "q < nb" | "q = nb" | "q = nb + 1" | "q = nb + 2" | "nb + 3 \<le> q" by linarith
    then show ?thesis
    proof cases
      case 1
      with least "1.prems" show ?thesis by (simp add: fence_at_def)
    next
      case 2
      with False show ?thesis by (simp add: fence_at_def)
    next
      case 3
      with not_fence_inside [OF occ] show ?thesis by simp
    next
      case 4
      with not_fence_inside [OF occ] show ?thesis by simp
    next
      case 5
      from "1.IH" [OF lt nb False rec 5 "1.prems"(3)] show ?thesis .
    qed
  qed
qed

lemma closingSearch_None:
  "closingSearch t searchPos = None \<Longrightarrow> searchPos \<le> q \<Longrightarrow> \<not> fence_at t q"
proof (induction t searchPos rule: closingSearch.induct)
  case (1 t searchPos)
  show ?case
  proof (cases "searchPos < length t")
    case False
    with "1.prems" have "length t \<le> q" by simp
    then show ?thesis by (simp add: fence_at_def occurs_at_def js_def)
  next
    case lt: True
    then have sl: "searchPos \<le> length t" by simp
    show ?thesis
    proof (cases "indexOf t (js ''```'') searchPos")
      case None
      with indexOf_None [OF sl] "1.prems" show ?thesis by (simp add: fence_at_def)
    next
      case (Some nb)
      from Some indexOf_Some [OF sl]
      have ge: "searchPos \<le> nb" and occ: "occurs_at (js ''```'') t nb"
        and least: "\<forall>r. searchPos \<le> r \<and> r < nb \<longrightarrow> \<not> occurs_at (js ''```'') t r"
        by simp_all
      from "1.prems" lt Some have nv: "\<not> (nb = 0 \<or> char_at t (nb - 1) = Some LF)"
        by (subst (asm) closingSearch.simps) (auto split: if_splits)
      with "1.prems" lt Some have rec: "closingSearch t (nb + 3) = None"
        by (subst (asm) closingSearch.simps) auto
      consider "q < nb" | "q = nb" | "q = nb + 1" | "q = nb + 2" | "nb + 3 \<le> q" by linarith
      then show ?thesis
      proof cases
        case 1
        with least "1.prems" show ?thesis by (simp add: fence_at_def)
      next
        case 2
        with nv show ?thesis by (simp add: fence_at_def)
      next
        case 3
        with not_fence_inside [OF occ] show ?thesis by simp
      next
        case 4
        with not_fence_inside [OF occ] show ?thesis by simp
      next
        case 5
        from "1.IH" [OF lt Some nv rec 5] show ?thesis .
      qed
    qed
  qed
qed

lemma findOutputBlock_Some:
  assumes "findOutputBlock text execId = Some b"
  shows "indexOf text (js ''```output:'' @ execId) 0 = Some (markerStart b)"
    and "indexOf text [LF] (markerStart b) = Some (contentStart b - 1)"
    and "0 < contentStart b"
    and "contentEnd b = (case closingSearch text (contentStart b) of
                           None \<Rightarrow> length text | Some closingPos \<Rightarrow> closingPos)"
  using assms by (auto simp add: findOutputBlock_def Let_def split: option.splits)

lemma findOutputBlock_bounds:
  assumes "findOutputBlock text execId = Some b"
  shows "markerStart b < contentStart b" and "contentStart b \<le> contentEnd b"
    and "contentEnd b \<le> length text"
proof -
  note f = findOutputBlock_Some [OF assms]
  from f(1) have occ: "occurs_at (js ''```output:'' @ execId) text (markerStart b)"
    by (simp add: indexOf_Some)
  then have ms: "markerStart b \<le> length text"
    using occurs_at_le by fastforce
  from f(2) indexOf_Some [OF ms] have nl: "markerStart b \<le> contentStart b - 1"
    and lf: "occurs_at [LF] text (contentStart b - 1)" by simp_all
  from nl f(3) show "markerStart b < contentStart b" by simp
  from lf f(3) have cs: "contentStart b \<le> length text" by (auto simp add: occurs_at_LF)
  have "contentStart b \<le> contentEnd b \<and> contentEnd b \<le> length text"
  proof (cases "closingSearch text (contentStart b)")
    case None
    with f(4) cs show ?thesis by simp
  next
    case (Some c)
    from closingSearch_Some [OF this] have "contentStart b \<le> c" and "c + 3 \<le> length text"
      using occurs_at_le [of "js ''```''" "text" c] by (simp_all add: js_def)
    with f(4) Some show ?thesis by simp
  qed
  then show "contentStart b \<le> contentEnd b" and "contentEnd b \<le> length text" by simp_all
qed

text \<open>
  What the search computes, for every text and id: a block is returned exactly when the
  characters of the marker occur in the text and a newline occurs at or after them. The
  block starts at the first such occurrence, its content starts after the first newline
  from there, and its content ends at the first closing fence from there on that follows
  a newline, or at the end of the text when there is none.
\<close>

lemma findOutputBlock_substring_search:
  "(findOutputBlock text execId \<noteq> None \<longleftrightarrow>
      (\<exists>k j. occurs_at (js ''```output:'' @ execId) text k \<and> k \<le> j \<and> j < length text \<and> text ! j = LF)) \<and>
   (\<forall>b. findOutputBlock text execId = Some b \<longrightarrow>
      occurs_at (js ''```output:'' @ execId) text (markerStart b) \<and>
      (\<forall>q < markerStart b. \<not> occurs_at (js ''```output:'' @ execId) text q) \<and>
      markerStart b < contentStart b \<and> text ! (contentStart b - 1) = LF \<and>
      (\<forall>q. markerStart b \<le> q \<and> q < contentStart b - 1 \<longrightarrow> text ! q \<noteq> LF) \<and>
      contentStart b \<le> contentEnd b \<and> contentEnd b \<le> length text \<and>
      (\<forall>q. contentStart b \<le> q \<and> q < contentEnd b \<longrightarrow> \<not> fence_at text q) \<and>
      (contentEnd b = length text \<or> fence_at text (contentEnd b)))"
proof (rule conjI)
  define marker where "marker = js ''```output:'' @ execId"
  show "findOutputBlock text execId \<noteq> None \<longleftrightarrow>
      (\<exists>k j. occurs_at (js ''```output:'' @ execId) text k \<and> k \<le> j \<and> j < length text \<and> text ! j = LF)"
  proof
    assume "findOutputBlock text execId \<noteq> None"
    then obtain b where b: "findOutputBlock text execId = Some b" by blast
    note f = findOutputBlock_Some [OF b]
    from f(1) have occ: "occurs_at (js ''```output:'' @ execId) text (markerStart b)"
      by (simp add: indexOf_Some)
    then have ms: "markerStart b \<le> length text"
      using occurs_at_le by fastforce
    from f(2) indexOf_Some [OF ms] have "markerStart b \<le> contentStart b - 1"
      and "occurs_at [LF] text (contentStart b - 1)" by simp_all
    with occ show "\<exists>k j. occurs_at (js ''```output:'' @ execId) text k \<and> k \<le> j \<and> j < length text \<and> text ! j = LF"
      unfolding occurs_at_LF by blast
  next
    assume "\<exists>k j. occurs_at (js ''```output:'' @ execId) text k \<and> k \<le> j \<and> j < length text \<and> text ! j = LF"
    then obtain k j where occ: "occurs_at marker text k" and kj: "k \<le> j"
      and lf: "occurs_at [LF] text j"
      unfolding occurs_at_LF marker_def by blast
    from occ have "indexOf text marker 0 \<noteq> None"
      by (auto simp add: indexOf_None)
    then obtain ms where ms: "indexOf text marker 0 = Some ms" by blast
    then have "occurs_at marker text ms" and least: "\<forall>q. q < ms \<longrightarrow> \<not> occurs_at marker text q"
      by (simp_all add: indexOf_Some)
    then have msl: "ms \<le> length text" using occurs_at_le by fastforce
    from least occ have "ms \<le> k" by (meson not_le)
    with kj have "ms \<le> j" by simp
    with lf have "indexOf text [LF] ms \<noteq> None"
      using indexOf_None [OF msl, of "[LF]"] by blast
    then obtain nl where "indexOf text [LF] ms = Some nl" by blast
    with ms show "findOutputBlock text execId \<noteq> None"
      by (simp add: findOutputBlock_def Let_def marker_def)
  qed
next
  show "\<forall>b. findOutputBlock text execId = Some b \<longrightarrow>
      occurs_at (js ''```output:'' @ execId) text (markerStart b) \<and>
      (\<forall>q < markerStart b. \<not> occurs_at (js ''```output:'' @ execId) text q) \<and>
      markerStart b < contentStart b \<and> text ! (contentStart b - 1) = LF \<and>
      (\<forall>q. markerStart b \<le> q \<and> q < contentStart b - 1 \<longrightarrow> text ! q \<noteq> LF) \<and>
      contentStart b \<le> contentEnd b \<and> contentEnd b \<le> length text \<and>
      (\<forall>q. contentStart b \<le> q \<and> q < contentEnd b \<longrightarrow> \<not> fence_at text q) \<and>
      (contentEnd b = length text \<or> fence_at text (contentEnd b))"
  proof (intro allI impI)
    fix b assume b: "findOutputBlock text execId = Some b"
    note f = findOutputBlock_Some [OF b] and bd = findOutputBlock_bounds [OF b]
    from f(1) have occ: "occurs_at (js ''```output:'' @ execId) text (markerStart b)"
      by (simp add: indexOf_Some)
    from f(1) have least: "\<forall>q < markerStart b. \<not> occurs_at (js ''```output:'' @ execId) text q"
      by (simp add: indexOf_Some)
    from occ have ms: "markerStart b \<le> length text"
      using occurs_at_le by fastforce
    from f(2) indexOf_Some [OF ms] have nl: "occurs_at [LF] text (contentStart b - 1)"
      and nl_least: "\<forall>q. markerStart b \<le> q \<and> q < contentStart b - 1 \<longrightarrow> \<not> occurs_at [LF] text q"
      by simp_all
    from nl have lf: "text ! (contentStart b - 1) = LF" and lt: "contentStart b - 1 < length text"
      by (simp_all add: occurs_at_LF)
    have first_lf: "\<forall>q. markerStart b \<le> q \<and> q < contentStart b - 1 \<longrightarrow> text ! q \<noteq> LF"
    proof (intro allI impI)
      fix q assume q: "markerStart b \<le> q \<and> q < contentStart b - 1"
      with nl_least have "\<not> occurs_at [LF] text q" by blast
      moreover from q lt have "q < length text" by simp
      ultimately show "text ! q \<noteq> LF" by (simp add: occurs_at_LF)
    qed
    have closing: "(\<forall>q. contentStart b \<le> q \<and> q < contentEnd b \<longrightarrow> \<not> fence_at text q) \<and>
         (contentEnd b = length text \<or> fence_at text (contentEnd b))"
    proof (cases "closingSearch text (contentStart b)")
      case None
      with f(4) closingSearch_None [OF None] show ?thesis by simp
    next
      case (Some c)
      from closingSearch_Some [OF this]
      have "fence_at text c" by (simp add: fence_at_def)
      with f(4) Some closingSearch_least [OF Some] show ?thesis by simp
    qed
    from occ least bd lf first_lf closing
    show "occurs_at (js ''```output:'' @ execId) text (markerStart b) \<and>
      (\<forall>q < markerStart b. \<not> occurs_at (js ''```output:'' @ execId) text q) \<and>
      markerStart b < contentStart b \<and> text ! (contentStart b - 1) = LF \<and>
      (\<forall>q. markerStart b \<le> q \<and> q < contentStart b - 1 \<longrightarrow> text ! q \<noteq> LF) \<and>
      contentStart b \<le> contentEnd b \<and> contentEnd b \<le> length text \<and>
      (\<forall>q. contentStart b \<le> q \<and> q < contentEnd b \<longrightarrow> \<not> fence_at text q) \<and>
      (contentEnd b = length text \<or> fence_at text (contentEnd b))"
      by blast
  qed
qed

lemma findOutputBlock_substring_search_example:
  "findOutputBlock (js ''```output:exec-1'' @ [LF] @ js ''hi'' @ [LF] @ js ''```'') (js ''exec-1'')
     = Some \<lparr>markerStart = 0, contentStart = 17, contentEnd = 20\<rparr> \<and>
   occurs_at (js ''```output:'' @ js ''exec-1'') (js ''```output:exec-1'' @ [LF] @ js ''hi'' @ [LF] @ js ''```'') 0 \<and>
   (js ''```output:exec-1'' @ [LF] @ js ''hi'' @ [LF] @ js ''```'') ! 16 = LF \<and>
   fence_at (js ''```output:exec-1'' @ [LF] @ js ''hi'' @ [LF] @ js ''```'') 20"
proof -
  have h: "findOutputBlock (js ''```output:exec-1'' @ [LF] @ js ''hi'' @ [LF] @ js ''```'') (js ''exec-1'')
     = Some \<lparr>markerStart = 0, contentStart = 17, contentEnd = 20\<rparr>"
    by (simp add: doc_ev)
  have l: "length (js ''```output:exec-1'' @ [LF] @ js ''hi'' @ [LF] @ js ''```'') = 23"
    by (simp add: js_def)
  show ?thesis
    using h l findOutputBlock_substring_search [of "js ''```output:exec-1'' @ [LF] @ js ''hi'' @ [LF] @ js ''```''" "js ''exec-1''"]
    by simp
qed

text \<open>
  Against claim C4: \<^verbatim>\<open>replaceOutput\<close> commits the deletion and the insertion as two
  transactions, and the text after the first one has the region emptied.
\<close>

theorem replaceOutput_not_atomic_counterexample:
  "transactions (snd (replaceOutput
      \<lparr>chars = js ''```output:e1'' @ [LF] @ js ''old'' @ [LF] @ js ''```'', transactions = []\<rparr>
      (js ''e1'') (js ''new'' @ [LF])))
     = [[Delete 13 4], [Insert 13 (js ''new'' @ [LF])]] \<and>
   chars (ytext_delete
      \<lparr>chars = js ''```output:e1'' @ [LF] @ js ''old'' @ [LF] @ js ''```'', transactions = []\<rparr> 13 4)
     = js ''```output:e1'' @ [LF] @ js ''```''"
  by (simp add: doc_ev replaceOutput_def ytext_insert_def ytext_delete_def)

text \<open>
  Claim C4, amended: for every document in which the output block for \<open>execId\<close>
  exists, \<^verbatim>\<open>replaceOutput(execId, content)\<close> returns true and leaves the text before
  \<open>contentStart\<close>, then \<open>content\<close>, then the text from \<open>contentEnd\<close> on; it does so by
  two edits, each a transaction of its own: the deletion of the span (when it is not empty)
  and then the insertion at \<open>contentStart\<close> (when \<open>content\<close> is not empty).
\<close>

theorem replaceOutput_two_edits:
  assumes "findOutputBlock (chars y) execId = Some b"
  shows "replaceOutput y execId content =
     (True,
      \<lparr>chars = take (contentStart b) (chars y) @ content @ drop (contentEnd b) (chars y),
       transactions = transactions y @
         (if contentStart b < contentEnd b
          then [[Delete (contentStart b) (contentEnd b - contentStart b)]] else []) @
         (if content \<noteq> [] then [[Insert (contentStart b) content]] else [])\<rparr>)"
proof -
  note bd = findOutputBlock_bounds [OF assms]
  have "y = \<lparr>chars = chars y, transactions = transactions y\<rparr>" by simp
  show ?thesis
  proof (cases "contentStart b < contentEnd b")
    case True
    with bd assms show ?thesis
      by (cases y) (simp add: replaceOutput_def ytext_insert_def ytext_delete_def Let_def min_def)
  next
    case False
    with bd have "contentEnd b = contentStart b" by simp
    with bd assms show ?thesis
      by (cases y) (simp add: replaceOutput_def ytext_insert_def ytext_delete_def Let_def)
  qed
qed

theorem replaceOutput_two_edits_witness:
  "findOutputBlock (chars \<lparr>chars = js ''```output:e1'' @ [LF] @ js ''old'' @ [LF] @ js ''```'', transactions = []\<rparr>) (js ''e1'')
     = Some \<lparr>markerStart = 0, contentStart = 13, contentEnd = 17\<rparr> \<and>
   replaceOutput \<lparr>chars = js ''```output:e1'' @ [LF] @ js ''old'' @ [LF] @ js ''```'', transactions = []\<rparr>
      (js ''e1'') (js ''new'' @ [LF])
   = (True, \<lparr>chars = js ''```output:e1'' @ [LF] @ js ''new'' @ [LF] @ js ''```'',
        transactions = [[Delete 13 4], [Insert 13 (js ''new'' @ [LF])]]\<rparr>)"
proof -
  have h: "findOutputBlock (chars \<lparr>chars = js ''```output:e1'' @ [LF] @ js ''old'' @ [LF] @ js ''```'', transactions = []\<rparr>) (js ''e1'')
     = Some \<lparr>markerStart = 0, contentStart = 13, contentEnd = 17\<rparr>"
    by (simp add: findOutputBlock_def indexOf_def closingSearch.simps js_def char_at_def Let_def)
  show ?thesis
    using h replaceOutput_two_edits [OF h, of "js ''new'' @ [LF]"]
    by (simp add: js_def)
qed


section \<open>The coordination protocol: claiming and execution ids\<close>

text \<open>
  Claim C1: \<^verbatim>\<open>claimExecution(execId)\<close> returns false and writes nothing if the record is
  absent, if its status is not \<^verbatim>\<open>requested\<close>, or if its \<^verbatim>\<open>claimedBy\<close> is not null; otherwise
  it returns true and replaces the record by one that is the same except for the status
  \<^verbatim>\<open>claimed\<close>, \<^verbatim>\<open>claimedBy\<close> set to the caller's client id and \<^verbatim>\<open>claimedAt\<close> set to the
  current time.
\<close>

theorem claimExecution_spec:
  "(executions p execId = None \<longrightarrow> claimExecution p now execId = (False, p)) \<and>
   (\<forall>exec. executions p execId = Some exec \<and> status exec \<noteq> js ''requested'' \<longrightarrow>
      claimExecution p now execId = (False, p)) \<and>
   (\<forall>exec. executions p execId = Some exec \<and> claimedBy exec \<noteq> Null \<longrightarrow>
      claimExecution p now execId = (False, p)) \<and>
   (\<forall>exec. executions p execId = Some exec \<and> status exec = js ''requested'' \<and> claimedBy exec = Null \<longrightarrow>
      claimExecution p now execId =
        (True, p\<lparr>executions := (executions p)(execId \<mapsto>
                   exec\<lparr>status := js ''claimed'', claimedBy := Value (clientId p),
                        claimedAt := Value now\<rparr>)\<rparr>))"
  by (simp add: claimExecution_def REQUESTED_def CLAIMED_def)

theorem claimExecution_spec_witness:
  "claimExecution \<lparr>clientId = 42, executions = Map.empty\<rparr> 1700000000005 (js ''exec-1'')
     = (False, \<lparr>clientId = 42, executions = Map.empty\<rparr>) \<and>
   claimExecution \<lparr>clientId = 42, executions = [js ''exec-1'' \<mapsto> example_request\<lparr>status := js ''running''\<rparr>]\<rparr> 1700000000005 (js ''exec-1'')
     = (False, \<lparr>clientId = 42, executions = [js ''exec-1'' \<mapsto> example_request\<lparr>status := js ''running''\<rparr>]\<rparr>) \<and>
   claimExecution \<lparr>clientId = 42, executions = [js ''exec-1'' \<mapsto> example_request\<lparr>claimedBy := Value 9\<rparr>]\<rparr> 1700000000005 (js ''exec-1'')
     = (False, \<lparr>clientId = 42, executions = [js ''exec-1'' \<mapsto> example_request\<lparr>claimedBy := Value 9\<rparr>]\<rparr>) \<and>
   claimExecution \<lparr>clientId = 42, executions = [js ''exec-1'' \<mapsto> example_request]\<rparr> 1700000000005 (js ''exec-1'')
     = (True, \<lparr>clientId = 42, executions = [js ''exec-1'' \<mapsto>
          example_request\<lparr>status := js ''claimed'', claimedBy := Value 42, claimedAt := Value 1700000000005\<rparr>]\<rparr>)"
  using claimExecution_spec [of "\<lparr>clientId = 42, executions = Map.empty\<rparr>" "js ''exec-1''" 1700000000005]
    claimExecution_spec [of "\<lparr>clientId = 42, executions = [js ''exec-1'' \<mapsto> example_request\<lparr>status := js ''running''\<rparr>]\<rparr>" "js ''exec-1''" 1700000000005]
    claimExecution_spec [of "\<lparr>clientId = 42, executions = [js ''exec-1'' \<mapsto> example_request\<lparr>claimedBy := Value 9\<rparr>]\<rparr>" "js ''exec-1''" 1700000000005]
    claimExecution_spec [of "\<lparr>clientId = 42, executions = [js ''exec-1'' \<mapsto> example_request]\<rparr>" "js ''exec-1''" 1700000000005]
  by (simp add: example_request_def js_def)

text \<open>
  Claim C10: when \<^verbatim>\<open>claimExecution\<close> succeeds, the record written differs from the record
  read only in \<^verbatim>\<open>status\<close>, \<^verbatim>\<open>claimedBy\<close> and \<^verbatim>\<open>claimedAt\<close>; every other field is unchanged.
\<close>

theorem claimExecution_frame:
  assumes "fst (claimExecution p now execId)"
  shows "\<exists>exec exec'. executions p execId = Some exec \<and>
           executions (snd (claimExecution p now execId)) execId = Some exec' \<and>
           exec_id exec' = exec_id exec \<and> cellId exec' = cellId exec \<and> code exec' = code exec \<and>
           language exec' = language exec \<and> runtimeUrl exec' = runtimeUrl exec \<and>
           session exec' = session exec \<and> requestedBy exec' = requestedBy exec \<and>
           requestedAt exec' = requestedAt exec \<and> outputBlockReady exec' = outputBlockReady exec \<and>
           outputPosition exec' = outputPosition exec \<and> startedAt exec' = startedAt exec \<and>
           completedAt exec' = completedAt exec \<and> stdinRequest exec' = stdinRequest exec \<and>
           stdinResponse exec' = stdinResponse exec \<and> result exec' = result exec \<and>
           error exec' = error exec \<and> displayData exec' = displayData exec \<and>
           exec' = exec\<lparr>status := status exec', claimedBy := claimedBy exec',
                         claimedAt := claimedAt exec'\<rparr>"
  using assms by (auto simp add: claimExecution_def split: option.splits if_splits)

theorem claimExecution_frame_witness:
  "fst (claimExecution \<lparr>clientId = 42, executions = [js ''exec-1'' \<mapsto> example_request]\<rparr>
          1700000000005 (js ''exec-1'')) \<and>
   (\<exists>exec'. executions (snd (claimExecution
                \<lparr>clientId = 42, executions = [js ''exec-1'' \<mapsto> example_request]\<rparr>
                1700000000005 (js ''exec-1''))) (js ''exec-1'') = Some exec' \<and>
      exec_id exec' = js ''exec-1'' \<and> cellId exec' = Undefined \<and> code exec' = js ''print(1)'' \<and>
      language exec' = js ''python'' \<and> runtimeUrl exec' = js ''http://localhost:8000/mrp/v1'' \<and>
      session exec' = Value (js ''default'') \<and> requestedBy exec' = 7 \<and>
      requestedAt exec' = 1700000000000 \<and> outputBlockReady exec' = False \<and>
      outputPosition exec' = JNull \<and> startedAt exec' = Null \<and> completedAt exec' = Null \<and>
      stdinRequest exec' = JNull \<and> stdinResponse exec' = JNull \<and> result exec' = JNull \<and>
      error exec' = JNull \<and> displayData exec' = [])"
proof -
  have h: "fst (claimExecution \<lparr>clientId = 42, executions = [js ''exec-1'' \<mapsto> example_request]\<rparr>
                  1700000000005 (js ''exec-1''))"
    by (simp add: claimExecution_def example_request_def REQUESTED_def)
  show ?thesis
    using h claimExecution_frame [OF h] by (auto simp add: example_request_def)
qed

text \<open>
  Against claim C7: for the random number 0.5, which \<^verbatim>\<open>toString(36)\<close> prints as \<^verbatim>\<open>0.i\<close>,
  the id is \<^verbatim>\<open>exec-1700000000000-i\<close>, with a suffix of one character.
\<close>

lemmas id_ev = generateExecId_def slice_def toString36_def base36_digit_def js_def matches_exec_id_def
  Let_def isDigit_def isBase36_def decimal.simps

theorem generateExecId_short_suffix_counterexample:
  "generateExecId 1700000000000 [18] = js ''exec-1700000000000-i'' \<and>
   \<not> matches_exec_id (generateExecId 1700000000000 [18])"
  by (simp add: id_ev)

lemma decimal_digits: "decimal n \<noteq> [] \<and> list_all isDigit (decimal n)"
proof (induction n rule: decimal.induct)
  case (1 n)
  show ?case
  proof (cases "n < 10")
    case True
    then show ?thesis by (subst (1 2) decimal.simps) (simp add: isDigit_def)
  next
    case False
    have "n mod 10 < 10" by simp
    then have "isDigit (48 + n mod 10)" unfolding isDigit_def by linarith
    with False "1.IH" show ?thesis by (subst (1 2) decimal.simps) simp
  qed
qed

lemma slice_toString36: "slice (toString36 rnd) 2 8 = map base36_digit (take 6 rnd)"
  by (simp add: slice_def toString36_def js_def take_map)

lemma base36_digit_ok: "d < 36 \<Longrightarrow> isBase36 (base36_digit d)"
  by (simp add: isBase36_def isDigit_def base36_digit_def)

lemma takeWhile_isDigit_decimal:
  "takeWhile isDigit (decimal n @ cu CHR ''-'' # rest) = decimal n"
  using decimal_digits [of n] by (simp add: list_all_iff isDigit_def)

text \<open>
  Claim C7, amended: for every value of the clock and of the random source,
  \<^verbatim>\<open>generateExecId()\<close> returns \<^verbatim>\<open>exec-\<close>, the decimal digits of the clock, a hyphen and the
  first six of the base-36 digits printed for the random number, or all of them when
  fewer than six are printed; it matches \<^verbatim>\<open>^exec-\d+-[0-9a-z]{6}$\<close> exactly when at least
  six digits are printed.
\<close>

theorem generateExecId_suffix:
  assumes "\<forall>d \<in> set rnd. d < 36"
  shows "generateExecId now rnd = js ''exec-'' @ decimal now @ js ''-'' @ map base36_digit (take 6 rnd) \<and>
         decimal now \<noteq> [] \<and> list_all isDigit (decimal now) \<and>
         list_all isBase36 (map base36_digit (take 6 rnd)) \<and>
         (matches_exec_id (generateExecId now rnd) \<longleftrightarrow> 6 \<le> length rnd)"
proof -
  have g: "generateExecId now rnd = js ''exec-'' @ decimal now @ js ''-'' @ map base36_digit (take 6 rnd)"
    by (simp add: generateExecId_def slice_toString36)
  have b: "list_all isBase36 (map base36_digit (take 6 rnd))"
    using assms by (auto simp add: list_all_iff base36_digit_ok dest: in_set_takeD)
  have tw: "takeWhile isDigit (drop 5 (generateExecId now rnd)) = decimal now"
    unfolding g using takeWhile_isDigit_decimal [of now] by (simp add: js_def)
  have dr: "drop (5 + length (decimal now)) (generateExecId now rnd)
              = js ''-'' @ map base36_digit (take 6 rnd)"
  proof -
    have "length (js ''exec-'') = 5" by (simp add: js_def)
    then have "drop (5 + length (decimal now)) (js ''exec-'' @ decimal now @ r) = r" for r
      by (metis append.assoc append_eq_conv_conj length_append)
    then show ?thesis unfolding g .
  qed
  have "matches_exec_id (generateExecId now rnd) \<longleftrightarrow> 6 \<le> length rnd"
    unfolding matches_exec_id_def Let_def tw dr
    using decimal_digits [of now] b by (auto simp add: g js_def)
  with g b decimal_digits [of now] show ?thesis by simp
qed

theorem generateExecId_suffix_witness:
  "generateExecId 1700000000000 [18, 3, 35, 0, 11, 29, 7] = js ''exec-1700000000000-i3z0bt'' \<and>
   matches_exec_id (generateExecId 1700000000000 [18, 3, 35, 0, 11, 29, 7])"
proof -
  have h: "\<forall>d \<in> set [18, 3, 35, 0, 11, 29, 7::nat]. d < 36" by simp
  show ?thesis
    using generateExecId_suffix [OF h, of 1700000000000]
    by (simp add: id_ev)
qed


section \<open>The execution handler: cancellation and the registry\<close>

lemma registry_ok_new: "registry_ok new_ExecutionHandler"
  by (simp add: registry_ok_def new_ExecutionHandler_def)

lemma registry_ok_register: "registry_ok h \<Longrightarrow> registry_ok (execute_register h execId c)"
  by (auto simp add: registry_ok_def execute_register_def split: option.splits)

lemma registry_ok_cancel: "registry_ok h \<Longrightarrow> registry_ok (cancel h execId)"
  by (simp add: registry_ok_def cancel_def split: option.splits)

lemma registry_ok_cancelAll: "registry_ok (cancelAll h)"
  by (simp add: registry_ok_def cancelAll_def)

lemma registry_ok_settle:
  "registry_ok h \<Longrightarrow> registry_ok (fst (execute_settle h execId callbacks body))"
  by (auto simp add: registry_ok_def execute_settle_def Let_def split: option.splits prod.splits)

lemma size_card: "Mapping.size m = card (Mapping.keys m)"
  by (simp add: Mapping.size_def)

text \<open>
  Claim C9: whatever the outcome of \<^verbatim>\<open>execute\<close> (a normal return, the aborted return
  or a thrown error), once the call settles its \<open>execId\<close> is no longer in the registry
  of active executions: \<^verbatim>\<open>isActive(execId)\<close> is false and \<^verbatim>\<open>activeCount\<close> counts the other
  entries only.
\<close>

theorem settle_unregisters:
  assumes "registry_ok h"
  shows "\<not> isActive (fst (execute_settle h (Some e) callbacks body)) e \<and>
         activeCount (fst (execute_settle h (Some e) callbacks body))
           = card (Mapping.keys (activeExecutions h) - {e})"
proof (cases "e = []")
  case True
  with assms have "e \<notin> Mapping.keys (activeExecutions h)" by (simp add: registry_ok_def)
  with True show ?thesis
    by (simp add: execute_settle_def Let_def isActive_def activeCount_def size_card
        split: prod.splits) (simp add: keys_is_none_rep Option.is_none_def)
next
  case False
  then show ?thesis
    by (simp add: execute_settle_def Let_def isActive_def activeCount_def size_card
        split: prod.splits)
qed

lemmas ex_ev = example_handler_def execute_register_def new_ExecutionHandler_def js_def

theorem settle_unregisters_witness:
  "registry_ok example_handler \<and> isActive example_handler (js ''exec-1'') \<and>
   activeCount example_handler = 1 \<and>
   \<not> isActive (fst (execute_settle example_handler (Some (js ''exec-1'')) \<lparr>has_onError = True\<rparr>
                     (Returned (JObj [(js ''success'', JBool True)])))) (js ''exec-1'') \<and>
   activeCount (fst (execute_settle example_handler (Some (js ''exec-1'')) \<lparr>has_onError = True\<rparr>
                       (Returned (JObj [(js ''success'', JBool True)])))) = 0 \<and>
   \<not> isActive (fst (execute_settle example_handler (Some (js ''exec-1'')) \<lparr>has_onError = True\<rparr>
                     (Threw (JsError (js ''AbortError'') (js ''aborted''))))) (js ''exec-1'') \<and>
   \<not> isActive (fst (execute_settle example_handler (Some (js ''exec-1'')) \<lparr>has_onError = True\<rparr>
                     (Threw (JsError (js ''TypeError'') (js ''fetch failed''))))) (js ''exec-1'')"
proof -
  have h: "registry_ok example_handler" by (simp add: ex_ev registry_ok_def)
  have k: "Mapping.keys (activeExecutions example_handler) = {js ''exec-1''}"
    by (simp add: ex_ev)
  have a: "isActive example_handler (js ''exec-1'') \<and> activeCount example_handler = 1"
    by (simp add: ex_ev isActive_def activeCount_def size_card)
  show ?thesis
    using h a
      settle_unregisters [OF h, of "js ''exec-1''" "\<lparr>has_onError = True\<rparr>"
        "Returned (JObj [(js ''success'', JBool True)])"]
      settle_unregisters [OF h, of "js ''exec-1''" "\<lparr>has_onError = True\<rparr>"
        "Threw (JsError (js ''AbortError'') (js ''aborted''))"]
      settle_unregisters [OF h, of "js ''exec-1''" "\<lparr>has_onError = True\<rparr>"
        "Threw (JsError (js ''TypeError'') (js ''fetch failed''))"]
    by (simp add: k)
qed



end
